theory Spec2Isabelle
  imports Main "HOL-Library.Word" "HOL-Library.AList"
begin

section \<open>Values, handlers and the response writer\<close>

text \<open>
  A handler result is a slice of \<^verbatim>\<open>reflect.Value\<close>. The constructors follow the kinds
  the return handlers look at: \<^verbatim>\<open>reflect.Bool\<close>, \<^verbatim>\<open>reflect.Int\<close>,
  \<^verbatim>\<open>reflect.String\<close>, a slice of \<^verbatim>\<open>uint8\<close>, \<^verbatim>\<open>reflect.Ptr\<close> and
  \<^verbatim>\<open>reflect.Interface\<close> (with the value \<^verbatim>\<open>Elem()\<close> gives), the zero Value
  (\<^verbatim>\<open>Elem()\<close> of a nil pointer), and any other kind, numbered.
\<close>

datatype rvalue =
    VBool bool
  | VInt int
  | VString string
  | VBytes string
  | VPtr rvalue
  | VIface rvalue
  | VInvalid
  | VOther nat

text \<open>
  A handler is an opaque Go function. What it can do to the request is call the methods
  of the injected \<^verbatim>\<open>Context\<close> and of the injected \<^verbatim>\<open>http.ResponseWriter\<close>, branch
  on what they answer, panic, and return values: a finite tree of such calls.
\<close>

datatype prog =
    Return "rvalue list"
  | CallNext prog
  | CallStop prog
  | CallWrite string prog
  | CallWriteHeader int prog
  | IfWritten prog prog
  | IfStopped prog prog
  | PanicNow

text \<open>
  \<open>Func p\<close> is a function with the behaviour \<open>p\<close>; \<open>BadParams\<close> is a function with a
  parameter the injector cannot resolve, for which \<^verbatim>\<open>Invoke\<close> returns an error.
  The action of a context is the method value \<^verbatim>\<open>r.Handle\<close>, which \<^verbatim>\<open>New\<close> installs with
  \<^verbatim>\<open>SetAction\<close>, or any other handler; \<^verbatim>\<open>r.Handle\<close> is used as the action only.
\<close>

datatype handler = Func prog | BadParams

datatype action_handler = RouterHandle | Plain handler

datatype wevent = WroteHeader int | Wrote string

text \<open>
  Modelled from the spec: the \<^verbatim>\<open>ResponseWriter\<close> of \<^verbatim>\<open>NewResponseWriter\<close> is not among the
  sources. The spec's response tracker "wraps the raw response sink to record whether any
  bytes/status have already been written"; \<open>sent\<close> keeps the calls in order.
\<close>

record response =
  written :: bool
  sent :: "wevent list"

definition NewResponseWriter :: response where
  "NewResponseWriter = \<lparr>written = False, sent = []\<rparr>"

definition WriteHeader :: "int \<Rightarrow> response \<Rightarrow> response" where
  "WriteHeader st w = w\<lparr>written := True, sent := sent w @ [WroteHeader st]\<rparr>"

definition Write :: "string \<Rightarrow> response \<Rightarrow> response" where
  "Write b w = w\<lparr>written := True, sent := sent w @ [Wrote b]\<rparr>"

section \<open>The execution context\<close>

record "context" =
  handlers :: "handler list"
  action :: action_handler
  rw :: response
  index :: int

definition NewContext :: "handler list \<Rightarrow> action_handler \<Rightarrow> context" where
  "NewContext hs a = \<lparr>handlers = hs, action = a, rw = NewResponseWriter, index = -1\<rparr>"

definition Written :: "context \<Rightarrow> bool" where
  "Written c = written (rw c)"

text \<open>
  \<^verbatim>\<open>context.handler\<close>: \<open>None\<close> is a panic, the explicit one past the action and Go's
  index-out-of-range one for a negative index.
\<close>

definition handler :: "context \<Rightarrow> action_handler option" where
  "handler c =
    (if index c < int (length (handlers c))
     then (if index c < 0 then None else Some (Plain (handlers c ! nat (index c))))
     else if index c = int (length (handlers c)) then Some (action c)
     else None)"

definition Stop :: "context \<Rightarrow> context" where
  "Stop c = c\<lparr>index := int (length (handlers c)) + 1\<rparr>"

definition IsStopped :: "context \<Rightarrow> bool" where
  "IsStopped c = (\<not> (index c \<le> int (length (handlers c))))"

section \<open>Regular expressions (package \<^verbatim>\<open>regexp\<close>)\<close>

text \<open>
  \<^verbatim>\<open>newRoute\<close>, \<^verbatim>\<open>Match\<close> and \<^verbatim>\<open>URLWith\<close> call Go's \<^verbatim>\<open>regexp\<close> package, which is not
  part of the repository. It is modelled here for the part of its syntax that the three
  fixed expressions of the repository and the compiled route patterns need: literals, the
  dot, character classes of characters and ranges, escaped punctuation, groups (plain,
  named with \<^verbatim>\<open>(?P<name>\<close>, and non-capturing), alternation and the greedy operators
  \<^verbatim>\<open>* + ?\<close>. The constructors carry the names of the operators of \<^verbatim>\<open>regexp/syntax\<close>.
  Strings are lists of single-byte characters; a pattern with a byte outside ASCII, an
  anchor, a counted repetition, a non-greedy operator, a flag, a class escape such as
  \<^verbatim>\<open>\d\<close>, or a star or plus over an expression that matches the empty string is outside
  the model, and compiling it gives \<open>None\<close>, as a syntax error does.
\<close>

datatype re =
    Lit char
  | AnyCharNotNL
  | CharClass bool "(char \<times> char) list"
  | EmptyMatch
  | Concat re re
  | Alternate re re
  | Star re
  | Quest re
  | Capture nat string re

definition Plus :: "re \<Rightarrow> re" where
  "Plus r = Concat r (Star r)"

definition in_ranges :: "char \<Rightarrow> (char \<times> char) list \<Rightarrow> bool" where
  "in_ranges c rs = (\<exists>(lo, hi) \<in> set rs. of_char lo \<le> (of_char c :: nat) \<and> (of_char c :: nat) \<le> of_char hi)"

definition class_has :: "bool \<Rightarrow> (char \<times> char) list \<Rightarrow> char \<Rightarrow> bool" where
  "class_has neg rs c = (in_ranges c rs \<noteq> neg)"

text \<open>
  The matches of an expression at the start of a string, in the order in which a
  backtracking search would find them (the leftmost-first rule of \<^verbatim>\<open>regexp\<close>: an earlier
  alternative before a later one, one more iteration before none): for each, the rest of
  the string and the groups captured, the latest first. An iteration of a star that
  consumes nothing is dropped.
\<close>

type_synonym caps = "(nat \<times> string) list"

fun one_char :: "(char \<Rightarrow> bool) \<Rightarrow> string \<Rightarrow> caps \<Rightarrow> (string \<times> caps) list" where
  "one_char P [] k = []"
| "one_char P (x # xs) k = (if P x then [(xs, k)] else [])"

function ms :: "re \<Rightarrow> string \<Rightarrow> caps \<Rightarrow> (string \<times> caps) list" where
  "ms (Lit c) s k = one_char (\<lambda>x. x = c) s k"
| "ms AnyCharNotNL s k = one_char (\<lambda>x. x \<noteq> CHR 0x0A) s k"
| "ms (CharClass neg rs) s k = one_char (class_has neg rs) s k"
| "ms EmptyMatch s k = [(s, k)]"
| "ms (Concat a b) s k = concat (map (\<lambda>(s', k'). ms b s' k') (ms a s k))"
| "ms (Alternate a b) s k = ms a s k @ ms b s k"
| "ms (Star a) s k =
     concat (map (\<lambda>(s', k'). if length s' < length s then ms (Star a) s' k' else []) (ms a s k))
     @ [(s, k)]"
| "ms (Quest a) s k = ms a s k @ [(s, k)]"
| "ms (Capture i nm a) s k =
     map (\<lambda>(s', k'). (s', (i, take (length s - length s') s) # k')) (ms a s k)"
  by pat_completeness auto
termination
  by (relation "measures [\<lambda>(r, s, k). size r, \<lambda>(r, s, k). length s]") auto

declare ms.simps(7) [simp del]


subsection \<open>The parser of \<^verbatim>\<open>regexp/syntax\<close>\<close>

text \<open>
  The parser reads the expression from left to right with a stack, as \<^verbatim>\<open>syntax.Parse\<close>
  does: a frame for each group that is open, with the alternatives finished so far and
  the pieces of the alternative being read, the latest first. The lemmas between the
  definitions say that a helper consumes input; the termination proofs need them.
\<close>

definition isalnum :: "char \<Rightarrow> bool" where
  "isalnum c = (let n = (of_char c :: nat) in
     (48 \<le> n \<and> n \<le> 57) \<or> (65 \<le> n \<and> n \<le> 90) \<or> (97 \<le> n \<and> n \<le> 122))"

definition isValidCaptureName :: "string \<Rightarrow> bool" where
  "isValidCaptureName nm = (nm \<noteq> [] \<and> list_all (\<lambda>c. c = CHR ''_'' \<or> isalnum c) nm)"

definition is_ascii :: "char \<Rightarrow> bool" where
  "is_ascii c = ((of_char c :: nat) < 128)"

fun parseEscape :: "string \<Rightarrow> (char \<times> string) option" where
  "parseEscape [] = None"
| "parseEscape (c # t) = (if is_ascii c \<and> \<not> isalnum c then Some (c, t) else None)"

fun parseClassChar :: "string \<Rightarrow> (char \<times> string) option" where
  "parseClassChar [] = None"
| "parseClassChar (c # t) =
     (if c = CHR 0x5C then parseEscape t else if is_ascii c then Some (c, t) else None)"

definition parseClassRange :: "string \<Rightarrow> ((char \<times> char) \<times> string) option" where
  "parseClassRange s =
    (case parseClassChar s of
       None \<Rightarrow> None
     | Some (lo, t) \<Rightarrow>
        (case t of
           d # x # t2 \<Rightarrow>
             if d \<noteq> CHR ''-'' \<or> x = CHR '']'' then Some ((lo, lo), t)
             else (case parseClassChar (x # t2) of
                     None \<Rightarrow> None
                   | Some (hi, t3) \<Rightarrow>
                       if (of_char hi :: nat) < of_char lo then None else Some ((lo, hi), t3))
         | _ \<Rightarrow> Some ((lo, lo), t)))"

lemma parseEscape_shorter: "parseEscape s = Some (c, t) \<Longrightarrow> length t < length s"
  by (cases s) (auto split: if_splits)

lemma parseClassChar_shorter: "parseClassChar s = Some (c, t) \<Longrightarrow> length t < length s"
  by (cases s) (auto split: if_splits dest: parseEscape_shorter)

lemma parseClassRange_shorter:
  assumes "parseClassRange s = Some (r, t)"
  shows "length t < length s"
proof (cases "parseClassChar s")
  case None
  with assms show ?thesis by (simp add: parseClassRange_def)
next
  case (Some p)
  obtain lo t1 where p: "p = (lo, t1)" by (cases p)
  have l1: "length t1 < length s" using Some p parseClassChar_shorter by simp
  show ?thesis
  proof (cases t1)
    case Nil
    with assms Some p l1 show ?thesis by (simp add: parseClassRange_def)
  next
    case (Cons d u)
    note t1 = Cons
    show ?thesis
    proof (cases u)
      case Nil
      with assms Some p l1 t1 show ?thesis by (simp add: parseClassRange_def)
    next
      case (Cons x t2)
      show ?thesis
      proof (cases "d \<noteq> CHR ''-'' \<or> x = CHR '']''")
        case True
        with assms Some p l1 t1 Cons show ?thesis
          by (auto simp add: parseClassRange_def simp del: parseClassChar.simps)
      next
        case False
        show ?thesis
        proof (cases "parseClassChar (x # t2)")
          case None
          with assms Some p t1 Cons False show ?thesis
            by (simp add: parseClassRange_def del: parseClassChar.simps)
        next
          case (Some q)
          obtain hi t3 where q: "q = (hi, t3)" by (cases q)
          have "length t3 < length (x # t2)"
            using Some q parseClassChar_shorter by blast
          moreover have "t = t3"
            using assms \<open>parseClassChar s = Some p\<close> p t1 Cons False Some q
            by (simp add: parseClassRange_def del: parseClassChar.simps split: if_splits)
          ultimately show ?thesis using l1 t1 Cons by simp
        qed
      qed
    qed
  qed
qed

function class_items :: "bool \<Rightarrow> string \<Rightarrow> (char \<times> char) list \<Rightarrow> ((char \<times> char) list \<times> string) option" where
  "class_items first [] acc = None"
| "class_items first (c # t) acc =
     (if c = CHR '']'' \<and> \<not> first then Some (acc, t)
      else if c = CHR ''['' \<and> take 1 t = '':'' then None
      else if c = CHR 0x5C \<and> (case t of [] \<Rightarrow> False | e # _ \<Rightarrow> isalnum e) then None
      else (case parseClassRange (c # t) of
              None \<Rightarrow> None
            | Some (r, t') \<Rightarrow> class_items False t' (acc @ [r])))"
  by pat_completeness auto
termination
  by (relation "measure (\<lambda>(first, s, acc). length s)") (auto dest: parseClassRange_shorter)

definition parseClass :: "string \<Rightarrow> (re \<times> string) option" where
  "parseClass t =
    (case t of
       c # t' \<Rightarrow>
         if c = CHR ''^''
         then map_option (\<lambda>(rs, rest). (CharClass True rs, rest)) (class_items True t' [])
         else map_option (\<lambda>(rs, rest). (CharClass False rs, rest)) (class_items True t [])
     | [] \<Rightarrow> None)"

lemma class_items_shorter: "class_items first s acc = Some (rs, t) \<Longrightarrow> length t < length s"
proof (induction first s acc rule: class_items.induct)
  case (1 first acc)
  then show ?case by simp
next
  case (2 first c t' acc)
  show ?case
  proof (cases "c = CHR '']'' \<and> \<not> first")
    case True
    with "2.prems" show ?thesis by auto
  next
    case False
    with "2.prems" obtain r t1 where r: "parseClassRange (c # t') = Some (r, t1)"
      and rest: "class_items False t1 (acc @ [r]) = Some (rs, t)"
      and g1: "\<not> (c = CHR ''['' \<and> take 1 t' = '':'')"
      and g2: "\<not> (c = CHR 0x5C \<and> (case t' of [] \<Rightarrow> False | e # _ \<Rightarrow> isalnum e))"
      by (auto split: if_splits option.splits)
    have "length t < length t1"
      using "2.IH" [OF False g1 g2 r] rest by simp
    moreover have "length t1 < length (c # t')"
      using r by (rule parseClassRange_shorter)
    ultimately show ?thesis by simp
  qed
qed

lemma parseClass_shorter: "parseClass s = Some (r, t) \<Longrightarrow> length t \<le> length s"
  unfolding parseClass_def
  by (auto simp del: class_items.simps split: list.splits if_splits dest!: class_items_shorter)

fun take_name :: "string \<Rightarrow> (string \<times> string) option" where
  "take_name [] = None"
| "take_name (c # t) =
     (if c = CHR ''>'' then Some ([], t)
      else map_option (\<lambda>(nm, rest). (c # nm, rest)) (take_name t))"

lemma take_name_shorter: "take_name s = Some (nm, t) \<Longrightarrow> length t < length s"
  by (induction s arbitrary: nm) (auto split: if_splits)

fun nullable :: "re \<Rightarrow> bool" where
  "nullable (Lit c) = False"
| "nullable AnyCharNotNL = False"
| "nullable (CharClass neg rs) = False"
| "nullable EmptyMatch = True"
| "nullable (Concat a b) = (nullable a \<and> nullable b)"
| "nullable (Alternate a b) = (nullable a \<or> nullable b)"
| "nullable (Star a) = True"
| "nullable (Quest a) = True"
| "nullable (Capture i nm a) = nullable a"

record frame =
  fcap :: "(nat \<times> string) option"
  falts :: "re list"
  fcat :: "re list"

fun concat_of :: "re list \<Rightarrow> re" where
  "concat_of [] = EmptyMatch"
| "concat_of [r] = r"
| "concat_of (r # rs) = Concat r (concat_of rs)"

fun alternate_of :: "re list \<Rightarrow> re" where
  "alternate_of [] = EmptyMatch"
| "alternate_of [r] = r"
| "alternate_of (r # rs) = Alternate r (alternate_of rs)"

definition new_frame :: "(nat \<times> string) option \<Rightarrow> frame" where
  "new_frame cp = \<lparr>fcap = cp, falts = [], fcat = []\<rparr>"

definition push :: "re \<Rightarrow> frame \<Rightarrow> frame" where
  "push r f = f\<lparr>fcat := r # fcat f\<rparr>"

definition parseVerticalBar :: "frame \<Rightarrow> frame" where
  "parseVerticalBar f = f\<lparr>falts := concat_of (rev (fcat f)) # falts f, fcat := []\<rparr>"

definition collapse :: "frame \<Rightarrow> re" where
  "collapse f =
    (let body = alternate_of (rev (concat_of (rev (fcat f)) # falts f))
     in case fcap f of None \<Rightarrow> body | Some (i, nm) \<Rightarrow> Capture i nm body)"

definition repeat :: "char \<Rightarrow> re \<Rightarrow> re option" where
  "repeat op sub =
    (if op = CHR ''?'' then Some (Quest sub)
     else if nullable sub then None
     else if op = CHR ''*'' then Some (Star sub)
     else Some (Plus sub))"

definition is_repeat_op :: "char \<Rightarrow> bool" where
  "is_repeat_op c = (c = CHR ''*'' \<or> c = CHR ''+'' \<or> c = CHR ''?'')"

function parse :: "string \<Rightarrow> frame \<Rightarrow> frame list \<Rightarrow> nat \<Rightarrow> re option" where
  "parse [] cur stk n = (if stk = [] then Some (collapse cur) else None)"
| "parse (c # t) cur stk n =
    (if c = CHR ''('' then
       (case t of
          q # t1 \<Rightarrow>
            if q = CHR ''?'' then
              (if take 2 t1 = ''P<'' then
                 (case take_name (drop 2 t1) of
                    None \<Rightarrow> None
                  | Some (nm, t2) \<Rightarrow>
                      if isValidCaptureName nm
                      then parse t2 (new_frame (Some (Suc n, nm))) (cur # stk) (Suc n)
                      else None)
               else if take 1 t1 = '':'' then parse (drop 1 t1) (new_frame None) (cur # stk) n
               else None)
            else parse t (new_frame (Some (Suc n, []))) (cur # stk) (Suc n)
        | [] \<Rightarrow> parse t (new_frame (Some (Suc n, []))) (cur # stk) (Suc n))
     else if c = CHR ''|'' then parse t (parseVerticalBar cur) stk n
     else if c = CHR '')'' then
       (case stk of
          [] \<Rightarrow> None
        | up # stk' \<Rightarrow> parse t (push (collapse cur) up) stk' n)
     else if c = CHR ''^'' \<or> c = CHR ''$'' \<or> c = CHR ''{'' then None
     else if c = CHR ''.'' then parse t (push AnyCharNotNL cur) stk n
     else if c = CHR ''['' then
       (case parseClass t of
          None \<Rightarrow> None
        | Some (cl, t') \<Rightarrow> parse t' (push cl cur) stk n)
     else if is_repeat_op c then
       (case fcat cur of
          [] \<Rightarrow> None
        | sub # rs \<Rightarrow>
            if (case t of [] \<Rightarrow> False | d # _ \<Rightarrow> is_repeat_op d \<or> d = CHR ''{'') then None
            else (case repeat c sub of
                    None \<Rightarrow> None
                  | Some r \<Rightarrow> parse t (cur\<lparr>fcat := r # rs\<rparr>) stk n))
     else if c = CHR 0x5C then
       (case parseEscape t of
          None \<Rightarrow> None
        | Some (e, t') \<Rightarrow> parse t' (push (Lit e) cur) stk n)
     else if is_ascii c then parse t (push (Lit c) cur) stk n
     else None)"
  by pat_completeness auto
termination
  by (relation "measure (\<lambda>(s, cur, stk, n). length s)")
     (auto dest!: take_name_shorter parseClass_shorter parseEscape_shorter)

definition Compile :: "string \<Rightarrow> re option" where
  "Compile expr = parse expr (new_frame None) [] 0"

subsection \<open>Searching and replacing\<close>

text \<open>
  \<^verbatim>\<open>FindStringSubmatch\<close> gives the text of the leftmost match and of each group (empty for
  a group that took no part), or the empty slice when nothing matches.
  \<^verbatim>\<open>ReplaceAllStringFunc\<close> is the loop of \<^verbatim>\<open>Regexp.replaceAll\<close> with its two positions;
  the replacement function may count its calls, as the closures of the repository do, so
  it takes and returns a state.
\<close>

fun cap_names :: "re \<Rightarrow> (nat \<times> string) list" where
  "cap_names (Concat a b) = cap_names a @ cap_names b"
| "cap_names (Alternate a b) = cap_names a @ cap_names b"
| "cap_names (Star a) = cap_names a"
| "cap_names (Quest a) = cap_names a"
| "cap_names (Capture i nm a) = (i, nm) # cap_names a"
| "cap_names r = []"

definition NumSubexp :: "re \<Rightarrow> nat" where
  "NumSubexp r = fold max (map fst (cap_names r)) 0"

definition SubexpNames :: "re \<Rightarrow> string list" where
  "SubexpNames r =
     map (\<lambda>i. case map_of (cap_names r) i of None \<Rightarrow> [] | Some nm \<Rightarrow> nm) [0..<Suc (NumSubexp r)]"

text \<open>The leftmost match at or after the start of \<open>s\<close>: its offset, its length and its groups.\<close>

fun search :: "re \<Rightarrow> string \<Rightarrow> (nat \<times> nat \<times> caps) option" where
  "search r [] = (case ms r [] [] of [] \<Rightarrow> None | (rest, k) # _ \<Rightarrow> Some (0, 0, k))"
| "search r (c # t) =
     (case ms r (c # t) [] of
        (rest, k) # _ \<Rightarrow> Some (0, length (c # t) - length rest, k)
      | [] \<Rightarrow> map_option (\<lambda>(i, l, k). (Suc i, l, k)) (search r t))"

definition FindStringSubmatch :: "re \<Rightarrow> string \<Rightarrow> string list" where
  "FindStringSubmatch r s =
    (case search r s of
       None \<Rightarrow> []
     | Some (i, l, k) \<Rightarrow>
         take l (drop i s)
         # map (\<lambda>g. case map_of k g of None \<Rightarrow> [] | Some m \<Rightarrow> m) [1..<Suc (NumSubexp r)])"

function replaceAll ::
  "re \<Rightarrow> string \<Rightarrow> ('s \<Rightarrow> string \<Rightarrow> string \<times> 's) \<Rightarrow> nat \<Rightarrow> nat \<Rightarrow> string \<Rightarrow> 's \<Rightarrow> string" where
  "replaceAll r src repl searchPos lastMatchEnd buf st =
    (if length src < searchPos then buf @ drop lastMatchEnd src
     else
       (case search r (drop searchPos src) of
          None \<Rightarrow> buf @ drop lastMatchEnd src
        | Some (i, l, k) \<Rightarrow>
            (let a0 = searchPos + i;
                 a1 = a0 + l;
                 buf1 = buf @ take (a0 - lastMatchEnd) (drop lastMatchEnd src);
                 (buf2, st') =
                    (if lastMatchEnd < a1 \<or> a0 = 0
                     then (let (out, st1) = repl st (take l (drop a0 src)) in (buf1 @ out, st1))
                     else (buf1, st));
                 width = (if searchPos < length src then 1 else 0);
                 searchPos' =
                    (if a1 < searchPos + width then searchPos + width
                     else if a1 < searchPos + 1 then searchPos + 1
                     else a1)
             in replaceAll r src repl searchPos' a1 buf2 st')))"
  by pat_completeness auto
termination
  by (relation "measure (\<lambda>(r, src, repl, searchPos, lastMatchEnd, buf, st). Suc (length src) - searchPos)")
     (auto split: if_splits)

declare replaceAll.simps [simp del]

definition ReplaceAllStringFunc ::
  "re \<Rightarrow> string \<Rightarrow> ('s \<Rightarrow> string \<Rightarrow> string \<times> 's) \<Rightarrow> 's \<Rightarrow> string" where
  "ReplaceAllStringFunc r src repl st = replaceAll r src repl 0 0 [] st"


section \<open>Routes\<close>

text \<open>
  \<open>bsl\<close> is the backslash. The three package-level expressions \<^verbatim>\<open>routeReg1\<close>,
  \<^verbatim>\<open>routeReg2\<close> and \<^verbatim>\<open>urlReg\<close> are given compiled; that \<open>Compile\<close> yields them from their
  source text is the lemma \<open>package_expressions\<close> below. \<^verbatim>\<open>newRoute\<close> gives \<open>None\<close> where
  \<^verbatim>\<open>regexp.MustCompile\<close> panics. \<^verbatim>\<open>ValidateHandler\<close> has nothing to reject: every
  \<open>handler\<close> is a function.
\<close>

definition bsl :: string where "bsl = [CHR 0x5C]"

record route =
  rmethod :: string
  regex :: re
  rhandlers :: "handler list"
  pattern :: string
  name :: string

definition name_class :: "(char \<times> char) list" where
  "name_class = map (\<lambda>c. (c, c)) (''/#?()'' @ ''.'' @ bsl)"

definition routeReg1 :: re where
  "routeReg1 = Concat (Lit CHR '':'') (Plus (CharClass True name_class))"

definition routeReg2 :: re where
  "routeReg2 = Concat (Lit CHR ''*'') (Lit CHR ''*'')"

function digits :: "nat \<Rightarrow> string" where
  "digits n = (if n < 10 then [char_of (48 + n)] else digits (n div 10) @ [char_of (48 + n mod 10)])"
  by pat_completeness auto
termination
  by (relation "measure id") auto

declare digits.simps [simp del]


definition newRoute :: "string \<Rightarrow> string \<Rightarrow> handler list \<Rightarrow> route option" where
  "newRoute meth pat hs =
    (let p1 = ReplaceAllStringFunc routeReg1 pat
                (\<lambda>u m. (''(?P<'' @ drop 1 m @ ''>[^/#?]+)'', u)) ();
         p2 = ReplaceAllStringFunc routeReg2 p1
                (\<lambda>idx m. (''(?P<_'' @ digits (Suc idx) @ ''>[^#?]*)'', Suc idx)) (0 :: nat);
         p3 = p2 @ bsl @ ''/?''
     in case Compile p3 of
          None \<Rightarrow> None
        | Some rx \<Rightarrow> Some \<lparr>rmethod = meth, regex = rx, rhandlers = hs, pattern = pat, name = []\<rparr>)"

text \<open>
  \<^verbatim>\<open>RouteMatch\<close> is an \<^verbatim>\<open>int\<close> with the values of \<^verbatim>\<open>iota\<close>, which \<open>rank\<close> gives, and
  \<^verbatim>\<open>BetterThan\<close> compares them.
\<close>

datatype RouteMatch = NoMatch | StarMatch | OverloadMatch | ExactMatch

fun rank :: "RouteMatch \<Rightarrow> nat" where
  "rank NoMatch = 0"
| "rank StarMatch = 1"
| "rank OverloadMatch = 2"
| "rank ExactMatch = 3"

definition BetterThan :: "RouteMatch \<Rightarrow> RouteMatch \<Rightarrow> bool" where
  "BetterThan r o' = (rank o' < rank r)"

definition MatchMethod :: "route \<Rightarrow> string \<Rightarrow> RouteMatch" where
  "MatchMethod r meth =
    (if meth = rmethod r then ExactMatch
     else if meth = ''HEAD'' \<and> rmethod r = ''GET'' then OverloadMatch
     else if rmethod r = ''*'' then StarMatch
     else NoMatch)"

text \<open>
  \<^verbatim>\<open>PathParams\<close> is a \<^verbatim>\<open>map[string]string\<close>: an association list with one entry per
  key, where a later assignment to a key replaces its value.
\<close>

type_synonym PathParams = "(string \<times> string) list"

definition bind_params :: "string list \<Rightarrow> string list \<Rightarrow> PathParams" where
  "bind_params names matches =
     fold (\<lambda>(nm, m) params. if length nm > 0 then AList.update nm m params else params)
          (zip names matches) []"

definition Match :: "route \<Rightarrow> string \<Rightarrow> string \<Rightarrow> RouteMatch \<times> PathParams option" where
  "Match r meth path =
    (let match = MatchMethod r meth in
     if match = NoMatch then (match, None)
     else
       (let matches = FindStringSubmatch (regex r) path in
        if length matches > 0 \<and> matches ! 0 = path
        then (match, Some (bind_params (SubexpNames (regex r)) matches))
        else (NoMatch, None)))"

definition urlReg :: re where
  "urlReg =
     Alternate
       (Concat (Lit CHR '':'') (Plus (CharClass True name_class)))
       (Concat (Lit CHR ''('') (Concat (Lit CHR ''?'') (Concat (Lit CHR ''P'') (Concat (Lit CHR ''<'')
         (Concat (Plus (CharClass False [(CHR ''a'', CHR ''z''), (CHR ''A'', CHR ''Z''), (CHR ''0'', CHR ''9'')]))
           (Concat (Lit CHR ''>'') (Concat (Star AnyCharNotNL) (Lit CHR '')''))))))))"




definition literal_regex :: "string \<Rightarrow> re" where
  "literal_regex p = concat_of (map Lit p @ [Quest (Lit CHR ''/'')])"



section \<open>The router\<close>

record group =
  gpattern :: string
  ghandlers :: "handler list"

record router =
  routes :: "route list"
  notFounds :: "handler list"
  groups :: "group list"

text \<open>\<^verbatim>\<open>http.NotFound\<close> replies with status 404 and a fixed line of text.\<close>

definition http_NotFound :: handler where
  "http_NotFound = Func (CallWriteHeader 404 (CallWrite (''404 page not found'' @ [CHR 0x0A]) (Return [])))"

definition NewRouter :: router where
  "NewRouter = \<lparr>routes = [], notFounds = [http_NotFound], groups = []\<rparr>"

text \<open>
  \<^verbatim>\<open>addRoute\<close> returns a pointer to the route it appended; the model returns its position in
  the table. \<open>None\<close> is the panic of \<^verbatim>\<open>regexp.MustCompile\<close>.
\<close>

definition addRoute :: "string \<Rightarrow> string \<Rightarrow> handler list \<Rightarrow> router \<Rightarrow> (nat \<times> router) option" where
  "addRoute meth pat hs r =
    (let (pat', hs') =
           (if length (groups r) > 0
            then (concat (map gpattern (groups r)) @ pat, concat (map ghandlers (groups r)) @ hs)
            else (pat, hs))
     in case newRoute meth pat' hs' of
          None \<Rightarrow> None
        | Some rt \<Rightarrow> Some (length (routes r), r\<lparr>routes := routes r @ [rt]\<rparr>))"

definition Get :: "string \<Rightarrow> handler list \<Rightarrow> router \<Rightarrow> (nat \<times> router) option" where
  "Get pat hs r = addRoute ''GET'' pat hs r"

definition Any :: "string \<Rightarrow> handler list \<Rightarrow> router \<Rightarrow> (nat \<times> router) option" where
  "Any pat hs r = addRoute ''*'' pat hs r"

definition NotFound :: "handler list \<Rightarrow> router \<Rightarrow> router" where
  "NotFound hs r = r\<lparr>notFounds := hs\<rparr>"






definition hasMethod :: "string list \<Rightarrow> string \<Rightarrow> bool" where
  "hasMethod methods meth = (meth \<in> set methods)"

definition MethodsFor :: "router \<Rightarrow> string \<Rightarrow> string list" where
  "MethodsFor r path =
     fold (\<lambda>rt methods.
             let matches = FindStringSubmatch (regex rt) path in
             if length matches > 0 \<and> matches ! 0 = path \<and> \<not> hasMethod methods (rmethod rt)
             then methods @ [rmethod rt] else methods)
          (routes r) []"

text \<open>
  The loop of \<^verbatim>\<open>router.Handle\<close> over the routes, with its \<^verbatim>\<open>break\<close>: the best match so
  far, its parameters and its route. The last component counts the routes the loop has
  looked at; it is not in the code, and \<open>Handle\<close> below drops it.
\<close>

type_synonym best = "RouteMatch \<times> PathParams option \<times> route option"

fun scan :: "route list \<Rightarrow> string \<Rightarrow> string \<Rightarrow> best \<Rightarrow> nat \<Rightarrow> best \<times> nat" where
  "scan [] meth path best seen = (best, seen)"
| "scan (rt # rts) meth path (bestMatch, bestVals, bestRoute) seen =
     (let (match, vals) = Match rt meth path in
      if BetterThan match bestMatch
      then (if match = ExactMatch then ((match, vals, Some rt), Suc seen)
            else scan rts meth path (match, vals, Some rt) (Suc seen))
      else scan rts meth path (bestMatch, bestVals, bestRoute) (Suc seen))"

section \<open>Running the chains\<close>

text \<open>
  A \<^verbatim>\<open>routeContext\<close> embeds the \<^verbatim>\<open>Context\<close> it is made from and adds a cursor and a chain
  of its own. The embedded context is the top-level one, shared by reference, so it is not
  a field here: it is the \<open>ctx\<close> of the state of the request, and the methods a
  \<^verbatim>\<open>routeContext\<close> does not define (\<^verbatim>\<open>Stop\<close>, \<^verbatim>\<open>IsStopped\<close>, \<^verbatim>\<open>Written\<close>, the injector)
  act on that.

  The state of a request is the top-level context, the \<^verbatim>\<open>routeContext\<close> once
  \<^verbatim>\<open>router.Handle\<close> has made one and mapped it as the \<^verbatim>\<open>Context\<close> of the injector, the
  \<^verbatim>\<open>PathParams\<close> it has mapped, and a trace: which handler was invoked, at which cursor
  of which context, and where \<^verbatim>\<open>Stop\<close> was called. The trace is not in the code; the
  properties of a request are stated on it.

  \<open>env\<close> is what a request does not change: the router, the method and the path of the
  request, and \<^verbatim>\<open>json.Marshal\<close>, taken as a parameter (\<open>None\<close> for an error).
\<close>

record routeContext =
  rindex :: int
  rchain :: "handler list"

datatype event = TopInvoke int | RouteInvoke int | StopCall

record env =
  the_router :: router
  req_method :: string
  req_path :: string
  marshal :: "rvalue \<Rightarrow> string option"

record state =
  ctx :: "context"
  rctx :: "routeContext option"
  params :: "PathParams option"
  trace :: "event list"

text \<open>
  A call returns, panics, or, in the model only, runs out of the fuel that bounds the
  depth of the calls; the state reached comes with each of the three.
\<close>

datatype 'a result = Ok 'a | Panic | OutOfFuel

datatype kind = KBool | KInt | KString | KByteSlice | KPtr | KInterface | KInvalid | KOther

fun Kind :: "rvalue \<Rightarrow> kind" where
  "Kind (VBool b) = KBool"
| "Kind (VInt i) = KInt"
| "Kind (VString s) = KString"
| "Kind (VBytes b) = KByteSlice"
| "Kind (VPtr v) = KPtr"
| "Kind (VIface v) = KInterface"
| "Kind VInvalid = KInvalid"
| "Kind (VOther n) = KOther"

fun as_bool :: "rvalue \<Rightarrow> bool" where
  "as_bool (VBool b) = b"
| "as_bool v = False"

fun as_int :: "rvalue \<Rightarrow> int" where
  "as_int (VInt i) = i"
| "as_int v = 0"

fun Elem :: "rvalue \<Rightarrow> rvalue" where
  "Elem (VPtr v) = v"
| "Elem (VIface v) = v"
| "Elem v = v"

fun Bytes :: "rvalue \<Rightarrow> string" where
  "Bytes (VBytes b) = b"
| "Bytes (VString s) = s"
| "Bytes v = []"

definition isString :: "rvalue \<Rightarrow> bool" where
  "isString val = (Kind val = KString)"

definition isByteSlice :: "rvalue \<Rightarrow> bool" where
  "isByteSlice val = (Kind val = KByteSlice)"

definition canDeref :: "rvalue \<Rightarrow> bool" where
  "canDeref val = (Kind val = KInterface \<or> Kind val = KPtr)"

definition res_Write :: "string \<Rightarrow> state \<Rightarrow> state" where
  "res_Write b s = s\<lparr>ctx := (ctx s)\<lparr>rw := Write b (rw (ctx s))\<rparr>\<rparr>"

definition res_WriteHeader :: "int \<Rightarrow> state \<Rightarrow> state" where
  "res_WriteHeader st s = s\<lparr>ctx := (ctx s)\<lparr>rw := WriteHeader st (rw (ctx s))\<rparr>\<rparr>"

definition ctx_Stop :: "state \<Rightarrow> state" where
  "ctx_Stop s = s\<lparr>ctx := Stop (ctx s), trace := trace s @ [StopCall]\<rparr>"

text \<open>
  The two return handlers that \<^verbatim>\<open>New\<close> maps, which the loops fetch from the injector
  after a handler has returned. \<open>no_write\<close> and \<open>single_false\<close> are the conditions of their
  first two \<^verbatim>\<open>if\<close>s, \<open>status_and_body\<close> the choice of the status and of the value to
  write with its \<^verbatim>\<open>Elem()\<close>, \<open>write_body\<close> the final write; \<^verbatim>\<open>Interface()\<close> of the zero
  Value panics. The middleware handler calls \<^verbatim>\<open>Stop\<close> between the two. \<^verbatim>\<open>ctx.Stop()\<close> is
  the \<^verbatim>\<open>Stop\<close> of the top-level context whichever context \<^verbatim>\<open>ctx\<close> is.
\<close>

definition no_write :: "rvalue list \<Rightarrow> bool" where
  "no_write vals =
     (length vals = 0 \<or> length vals \<ge> 1 \<and> Kind (vals ! 0) = KBool \<and> as_bool (vals ! 0))"

definition single_false :: "rvalue list \<Rightarrow> bool" where
  "single_false vals = (length vals = 1 \<and> Kind (vals ! 0) = KBool \<and> \<not> as_bool (vals ! 0))"

definition write_body :: "env \<Rightarrow> rvalue \<Rightarrow> state \<Rightarrow> unit result \<times> state" where
  "write_body e responseVal s =
    (if isByteSlice responseVal then (Ok (), res_Write (Bytes responseVal) s)
     else if isString responseVal then (Ok (), res_Write (Bytes responseVal) s)
     else if Kind responseVal = KInvalid then (Panic, s)
     else (case marshal e responseVal of
             None \<Rightarrow> (Panic, s)
           | Some bytes \<Rightarrow> (Ok (), res_Write bytes s)))"

definition status_and_body :: "rvalue list \<Rightarrow> state \<Rightarrow> rvalue \<times> state" where
  "status_and_body vals s =
    (let (responseVal, s1) =
       (if length vals > 1
        then (vals ! 1, res_WriteHeader (if Kind (vals ! 0) = KInt then as_int (vals ! 0) else 200) s)
        else if length vals > 0 then (vals ! 0, s)
        else (VString [], s))
     in (if canDeref responseVal then Elem responseVal else responseVal, s1))"

definition defaultRouterReturnHandler :: "env \<Rightarrow> rvalue list \<Rightarrow> state \<Rightarrow> unit result \<times> state" where
  "defaultRouterReturnHandler e vals s =
    (if no_write vals then (Ok (), s)
     else if single_false vals then (Ok (), ctx_Stop (res_Write [] s))
     else (let (responseVal, s1) = status_and_body vals s
           in write_body e responseVal s1))"

definition defaultMiddlewareReturnHandler :: "env \<Rightarrow> rvalue list \<Rightarrow> state \<Rightarrow> unit result \<times> state" where
  "defaultMiddlewareReturnHandler e vals s =
    (if no_write vals then (Ok (), s)
     else if single_false vals then (Ok (), ctx_Stop (res_Write [] s))
     else (let (responseVal, s1) = status_and_body vals s
           in write_body e responseVal (ctx_Stop s1)))"

definition bump :: "state \<Rightarrow> state" where
  "bump s = s\<lparr>ctx := (ctx s)\<lparr>index := index (ctx s) + 1\<rparr>\<rparr>"

definition rbump :: "state \<Rightarrow> state" where
  "rbump s = s\<lparr>rctx := map_option (\<lambda>r. r\<lparr>rindex := rindex r + 1\<rparr>) (rctx s)\<rparr>"

definition record_event :: "event \<Rightarrow> state \<Rightarrow> state" where
  "record_event ev s = s\<lparr>trace := trace s @ [ev]\<rparr>"

text \<open>
  \<open>run\<close> is \<^verbatim>\<open>context.run\<close>, \<open>rrun\<close> is \<^verbatim>\<open>routeContext.run\<close>, \<open>Handle\<close> is
  \<^verbatim>\<open>router.Handle\<close> with \<^verbatim>\<open>route.Handle\<close> in it, \<open>Invoke\<close> is the injector's call of a
  handler, and \<open>exec\<close> runs the body of a handler. The flag of \<open>exec\<close> says which
  \<^verbatim>\<open>Context\<close> the injector gave the handler when it was invoked: the \<^verbatim>\<open>routeContext\<close>
  once one is mapped, the top-level context before; \<^verbatim>\<open>Next\<close> is the method of that one.
  Each loop iteration and each nested call takes one unit of fuel.
\<close>

fun run :: "nat \<Rightarrow> env \<Rightarrow> state \<Rightarrow> unit result \<times> state"
and rrun :: "nat \<Rightarrow> env \<Rightarrow> state \<Rightarrow> unit result \<times> state"
and Handle :: "nat \<Rightarrow> env \<Rightarrow> state \<Rightarrow> unit result \<times> state"
and Invoke :: "nat \<Rightarrow> env \<Rightarrow> action_handler \<Rightarrow> state \<Rightarrow> rvalue list result \<times> state"
and exec :: "nat \<Rightarrow> env \<Rightarrow> bool \<Rightarrow> prog \<Rightarrow> state \<Rightarrow> rvalue list result \<times> state"
where
  "run 0 e s = (OutOfFuel, s)"
| "run (Suc n) e s =
    (if IsStopped (ctx s) then (Ok (), s)
     else
       (case handler (ctx s) of
          None \<Rightarrow> (Panic, s)
        | Some h \<Rightarrow>
           (case Invoke n e h (record_event (TopInvoke (index (ctx s))) s) of
              (Ok vals, s1) \<Rightarrow>
                (case defaultMiddlewareReturnHandler e vals s1 of
                   (Ok u, s2) \<Rightarrow>
                     (let s3 = bump s2 in
                      if Written (ctx s3) then (Ok (), s3)
                      else if IsStopped (ctx s3) then (Ok (), s3)
                      else run n e s3)
                 | (Panic, s2) \<Rightarrow> (Panic, s2)
                 | (OutOfFuel, s2) \<Rightarrow> (OutOfFuel, s2))
            | (Panic, s1) \<Rightarrow> (Panic, s1)
            | (OutOfFuel, s1) \<Rightarrow> (OutOfFuel, s1))))"
| "rrun 0 e s = (OutOfFuel, s)"
| "rrun (Suc n) e s =
    (case rctx s of
       None \<Rightarrow> (Panic, s)
     | Some r \<Rightarrow>
        if rindex r < int (length (rchain r)) then
          (if rindex r < 0 then (Panic, s)
           else
             (case Invoke n e (Plain (rchain r ! nat (rindex r))) (record_event (RouteInvoke (rindex r)) s) of
                (Ok vals, s1) \<Rightarrow>
                  (let s2 = rbump s1 in
                   if length vals > 0 then defaultRouterReturnHandler e vals s2
                   else if Written (ctx s2) then (Ok (), s2)
                   else rrun n e s2)
              | (Panic, s1) \<Rightarrow> (Panic, s1)
              | (OutOfFuel, s1) \<Rightarrow> (OutOfFuel, s1)))
        else (Ok (), s))"
| "Handle 0 e s = (OutOfFuel, s)"
| "Handle (Suc n) e s =
    (case fst (scan (routes (the_router e)) (req_method e) (req_path e) (NoMatch, None, None) 0) of
       (bestMatch, bestVals, bestRoute) \<Rightarrow>
         if bestMatch \<noteq> NoMatch then
           (case bestRoute of
              None \<Rightarrow> (Panic, s)
            | Some rt \<Rightarrow>
                rrun n e (s\<lparr>params := bestVals, rctx := Some \<lparr>rindex = 0, rchain = rhandlers rt\<rparr>\<rparr>))
         else rrun n e (s\<lparr>rctx := Some \<lparr>rindex = 0, rchain = notFounds (the_router e)\<rparr>\<rparr>))"
| "Invoke n e RouterHandle s =
    (case Handle n e s of
       (Ok u, s1) \<Rightarrow> (Ok [], s1)
     | (Panic, s1) \<Rightarrow> (Panic, s1)
     | (OutOfFuel, s1) \<Rightarrow> (OutOfFuel, s1))"
| "Invoke n e (Plain BadParams) s = (Panic, s)"
| "Invoke n e (Plain (Func p)) s = exec n e (rctx s \<noteq> None) p s"
| "exec n e rt (Return vals) s = (Ok vals, s)"
| "exec n e rt (CallNext k) s =
    (case (if rt then rrun n e (rbump s) else run n e (bump s)) of
       (Ok u, s1) \<Rightarrow> exec n e rt k s1
     | (Panic, s1) \<Rightarrow> (Panic, s1)
     | (OutOfFuel, s1) \<Rightarrow> (OutOfFuel, s1))"
| "exec n e rt (CallStop k) s = exec n e rt k (ctx_Stop s)"
| "exec n e rt (CallWrite b k) s = exec n e rt k (res_Write b s)"
| "exec n e rt (CallWriteHeader st k) s = exec n e rt k (res_WriteHeader st s)"
| "exec n e rt (IfWritten a b) s = (if Written (ctx s) then exec n e rt a s else exec n e rt b s)"
| "exec n e rt (IfStopped a b) s = (if IsStopped (ctx s) then exec n e rt a s else exec n e rt b s)"
| "exec n e rt PanicNow s = (Panic, s)"

text \<open>\<^verbatim>\<open>context.Next\<close> and \<^verbatim>\<open>routeContext.Next\<close>: advance the cursor, then run.\<close>

definition Next :: "nat \<Rightarrow> env \<Rightarrow> state \<Rightarrow> unit result \<times> state" where
  "Next n e s = run n e (bump s)"

definition route_Next :: "nat \<Rightarrow> env \<Rightarrow> state \<Rightarrow> unit result \<times> state" where
  "route_Next n e s = rrun n e (rbump s)"

section \<open>The server\<close>

datatype server_event = Slept int | SentClose

text \<open>
  The fields of \<^verbatim>\<open>yawf\<close> that a request touches. \<open>activeCount\<close> is an \<^verbatim>\<open>int32\<close>;
  \<open>signals\<close> keeps, in order, the calls to \<^verbatim>\<open>time.Sleep\<close> and the sends on \<^verbatim>\<open>cClose\<close>.
\<close>

record yawf =
  s_handlers :: "handler list"
  s_action :: action_handler
  activeCount :: "32 word"
  isStopping :: bool
  gracefulDelay :: int
  signals :: "server_event list"

definition CreateContext :: "yawf \<Rightarrow> state" where
  "CreateContext srv =
     \<lparr>ctx = NewContext (s_handlers srv) (s_action srv), rctx = None, params = None, trace = []\<rparr>"

text \<open>
  \<^verbatim>\<open>ServeHTTP\<close>: the chain, then \<^verbatim>\<open>atomic.AddInt32(&s.activeCount, -1)\<close>, then the test
  for the last request of a stopping server. A panic of the chain leaves the function at
  once, before the counter is touched.
\<close>

definition ServeHTTP :: "nat \<Rightarrow> env \<Rightarrow> yawf \<Rightarrow> (unit result \<times> state) \<times> yawf" where
  "ServeHTTP n e srv =
    (case Next n e (CreateContext srv) of
       (Ok u, st) \<Rightarrow>
         (let count = activeCount srv + (- 1);
              srv1 = srv\<lparr>activeCount := count\<rparr>
          in if isStopping srv1 \<and> count = 0
             then ((Ok (), st), srv1\<lparr>signals := signals srv1 @ [Slept (gracefulDelay srv1), SentClose]\<rparr>)
             else ((Ok (), st), srv1))
     | (Panic, st) \<Rightarrow> ((Panic, st), srv)
     | (OutOfFuel, st) \<Rightarrow> ((OutOfFuel, st), srv))"

text \<open>\<^verbatim>\<open>yawf.Stop\<close>; closing the listener is outside the model.\<close>

definition server_Stop :: "yawf \<Rightarrow> yawf" where
  "server_Stop srv =
    (let srv1 = srv\<lparr>isStopping := True\<rparr>
     in if activeCount srv1 = 0 then srv1\<lparr>signals := signals srv1 @ [SentClose]\<rparr> else srv1)"

section \<open>Requests used as examples\<close>

text \<open>
  A \<^verbatim>\<open>json.Marshal\<close> that always fails, the routes \<^verbatim>\<open>newRoute\<close> builds for the patterns
  \<^verbatim>\<open>/\<close> and \<^verbatim>\<open>/x\<close>, requests to them, and a server as \<^verbatim>\<open>New\<close> makes it.
\<close>

definition marshal_fails :: "rvalue \<Rightarrow> string option" where
  "marshal_fails v = None"

definition slash_route :: "handler list \<Rightarrow> route" where
  "slash_route hs =
     \<lparr>rmethod = ''GET'', regex = Concat (Lit CHR ''/'') (Quest (Lit CHR ''/'')),
        rhandlers = hs, pattern = ''/'', name = []\<rparr>"

definition get_slash :: "handler list \<Rightarrow> env" where
  "get_slash hs =
     \<lparr>the_router = \<lparr>routes = [slash_route hs], notFounds = [http_NotFound], groups = []\<rparr>,
        req_method = ''GET'', req_path = ''/'', marshal = marshal_fails\<rparr>"

definition classic :: "handler list \<Rightarrow> yawf" where
  "classic hs =
     \<lparr>s_handlers = hs, s_action = RouterHandle, activeCount = 0, isStopping = False,
        gracefulDelay = 3000000000, signals = []\<rparr>"

definition x_route :: "string \<Rightarrow> handler list \<Rightarrow> route" where
  "x_route meth hs =
     \<lparr>rmethod = meth,
        regex = Concat (Lit CHR ''/'') (Concat (Lit CHR ''x'') (Quest (Lit CHR ''/''))),
        rhandlers = hs, pattern = ''/x'', name = []\<rparr>"



section \<open>Traces of a request\<close>

text \<open>
  \<open>quiet stopped tr\<close>: in the events \<open>tr\<close>, no handler of the top-level context is
  invoked once \<^verbatim>\<open>Stop\<close> has been called, or at all when the context was stopped before.
  \<open>follows s s'\<close>: the state \<open>s'\<close> comes after \<open>s\<close> in a request: the chain is the same,
  the trace has grown by quiet events, and a stopped context stays stopped.
\<close>

fun quiet :: "bool \<Rightarrow> event list \<Rightarrow> bool" where
  "quiet stopped [] = True"
| "quiet stopped (StopCall # tr) = quiet True tr"
| "quiet stopped (TopInvoke i # tr) = (\<not> stopped \<and> quiet stopped tr)"
| "quiet stopped (RouteInvoke i # tr) = quiet stopped tr"

definition follows :: "state \<Rightarrow> state \<Rightarrow> bool" where
  "follows s s' \<longleftrightarrow>
     handlers (ctx s') = handlers (ctx s) \<and>
     (\<exists>tr. trace s' = trace s @ tr \<and> quiet (IsStopped (ctx s)) tr \<and>
           (IsStopped (ctx s) \<or> StopCall \<in> set tr \<longrightarrow> IsStopped (ctx s')))"

section \<open>Measures of the run loops\<close>

text \<open>
  What is left of the two chains: the top-level cursor can move up to one past the end of
  its chain (the action sits at the end), the route cursor up to the end of its chain.
  A route-scoped chain is the chain of a registered route or the not-found chain, so
  \<open>chain_bound\<close> bounds its length. \<open>advances\<close> and \<open>route_advances\<close> say that a step
  leaves the chains as they are and moves no cursor back; \<open>fuel_for\<close> is a number of
  nested calls that no request exceeds.
\<close>

definition top_left :: "state \<Rightarrow> nat" where
  "top_left s = nat (int (length (handlers (ctx s))) + 1 - index (ctx s))"

definition route_left :: "state \<Rightarrow> nat" where
  "route_left s = (case rctx s of None \<Rightarrow> 0 | Some r \<Rightarrow> length (rchain r) - nat (rindex r))"

definition chain_bound :: "env \<Rightarrow> nat" where
  "chain_bound e =
     fold max (map (\<lambda>rt. length (rhandlers rt)) (routes (the_router e)))
              (length (notFounds (the_router e)))"

definition chains_ok :: "env \<Rightarrow> state \<Rightarrow> bool" where
  "chains_ok e s = (case rctx s of None \<Rightarrow> True | Some r \<Rightarrow> length (rchain r) \<le> chain_bound e)"

definition advances :: "env \<Rightarrow> state \<Rightarrow> state \<Rightarrow> bool" where
  "advances e s s' \<longleftrightarrow>
     handlers (ctx s') = handlers (ctx s) \<and> top_left s' \<le> top_left s
     \<and> (chains_ok e s \<longrightarrow> chains_ok e s')"

definition route_advances :: "state \<Rightarrow> state \<Rightarrow> bool" where
  "route_advances s s' \<longleftrightarrow>
     (\<forall>r. rctx s = Some r \<longrightarrow>
        (\<exists>r'. rctx s' = Some r' \<and> rchain r' = rchain r \<and> rindex r \<le> rindex r'))"

definition fuel_for :: "env \<Rightarrow> yawf \<Rightarrow> nat" where
  "fuel_for e srv = length (s_handlers srv) + chain_bound e + 4"

section \<open>The language of a regular expression\<close>



section \<open>Properties of the matcher\<close>

lemma package_expressions:
  "Compile ('':[^/#?()'' @ bsl @ ''.'' @ bsl @ bsl @ '']+'') = Some routeReg1"
  "Compile (bsl @ ''*'' @ bsl @ ''*'') = Some routeReg2"
  "Compile ('':[^/#?()'' @ bsl @ ''.'' @ bsl @ bsl @ '']+|'' @ bsl @ ''('' @ bsl @ ''?P<[a-zA-Z0-9]+>.*'' @ bsl @ '')'')
     = Some urlReg"
  by code_simp+







section \<open>Properties of the route scan\<close>


lemma rank_le_3: "rank a \<le> 3"
  by (cases a) simp_all

lemma scan_exact_start:
  "fst (scan rts meth path (ExactMatch, v0, r0) k0) = (ExactMatch, v0, r0)"
proof (induction rts arbitrary: k0)
  case Nil
  show ?case by simp
next
  case (Cons rt rts)
  obtain mt vals where m: "Match rt meth path = (mt, vals)" by (cases "Match rt meth path")
  have "\<not> BetterThan mt ExactMatch" using rank_le_3 [of mt] by (simp add: BetterThan_def)
  with m Cons show ?case by simp
qed

lemma scan_best:
  assumes "fst (scan rts meth path (b0, v0, r0) k0) = (bm, bv, br)"
  shows "rank b0 \<le> rank bm \<and> (\<forall>rt \<in> set rts. rank (fst (Match rt meth path)) \<le> rank bm) \<and>
         ((bm, bv, br) = (b0, v0, r0) \<or>
          (\<exists>i < length rts. br = Some (rts ! i) \<and> Match (rts ! i) meth path = (bm, bv)
              \<and> rank b0 < rank bm
              \<and> (\<forall>j < i. rank (fst (Match (rts ! j) meth path)) < rank bm)))"
  using assms
proof (induction rts arbitrary: b0 v0 r0 k0)
  case Nil
  then show ?case by simp
next
  case (Cons rt rts)
  obtain mt vals where m: "Match rt meth path = (mt, vals)" by (cases "Match rt meth path")
  show ?case
  proof (cases "BetterThan mt b0")
    case False
    then have le: "rank mt \<le> rank b0" by (simp add: BetterThan_def)
    from Cons.prems m False have sc: "fst (scan rts meth path (b0, v0, r0) (Suc k0)) = (bm, bv, br)" by simp
    note ih = Cons.IH [OF sc]
    from ih have r0: "rank b0 \<le> rank bm" by blast
    from ih have all: "\<forall>x \<in> set rts. rank (fst (Match x meth path)) \<le> rank bm" by blast
    from ih have "(bm, bv, br) = (b0, v0, r0) \<or>
          (\<exists>i < length rts. br = Some (rts ! i) \<and> Match (rts ! i) meth path = (bm, bv)
              \<and> rank b0 < rank bm
              \<and> (\<forall>j < i. rank (fst (Match (rts ! j) meth path)) < rank bm))" by blast
    then show ?thesis
    proof
      assume "(bm, bv, br) = (b0, v0, r0)"
      with r0 all le m show ?thesis by auto
    next
      assume "\<exists>i < length rts. br = Some (rts ! i) \<and> Match (rts ! i) meth path = (bm, bv)
              \<and> rank b0 < rank bm
              \<and> (\<forall>j < i. rank (fst (Match (rts ! j) meth path)) < rank bm)"
      then obtain i where i: "i < length rts" "br = Some (rts ! i)"
        "Match (rts ! i) meth path = (bm, bv)" "rank b0 < rank bm"
        "\<forall>j < i. rank (fst (Match (rts ! j) meth path)) < rank bm" by blast
      have "\<forall>j < Suc i. rank (fst (Match ((rt # rts) ! j) meth path)) < rank bm"
      proof (intro allI impI)
        fix j assume "j < Suc i"
        show "rank (fst (Match ((rt # rts) ! j) meth path)) < rank bm"
        proof (cases j)
          case 0
          with m le i(4) show ?thesis by simp
        next
          case (Suc j')
          with \<open>j < Suc i\<close> i(5) show ?thesis by simp
        qed
      qed
      with i have "\<exists>k < length (rt # rts). br = Some ((rt # rts) ! k)
           \<and> Match ((rt # rts) ! k) meth path = (bm, bv) \<and> rank b0 < rank bm
           \<and> (\<forall>j < k. rank (fst (Match ((rt # rts) ! j) meth path)) < rank bm)"
        by (intro exI [of _ "Suc i"]) simp
      moreover have "\<forall>x \<in> set (rt # rts). rank (fst (Match x meth path)) \<le> rank bm"
        using all m le r0 by auto
      ultimately show ?thesis using r0 by blast
    qed
  next
    case True
    then have lt: "rank b0 < rank mt" by (simp add: BetterThan_def)
    show ?thesis
    proof (cases "mt = ExactMatch")
      case True
      with Cons.prems m \<open>BetterThan mt b0\<close> have res: "bm = ExactMatch" "bv = vals" "br = Some rt"
        by auto
      have "\<forall>x \<in> set (rt # rts). rank (fst (Match x meth path)) \<le> rank bm"
        using res rank_le_3 by simp
      moreover have "\<exists>k < length (rt # rts). br = Some ((rt # rts) ! k)
           \<and> Match ((rt # rts) ! k) meth path = (bm, bv) \<and> rank b0 < rank bm
           \<and> (\<forall>j < k. rank (fst (Match ((rt # rts) ! j) meth path)) < rank bm)"
        using res m True lt by (intro exI [of _ 0]) simp
      moreover have "rank b0 \<le> rank bm" using res True lt by simp
      ultimately show ?thesis by blast
    next
      case False
      with Cons.prems m \<open>BetterThan mt b0\<close>
      have sc: "fst (scan rts meth path (mt, vals, Some rt) (Suc k0)) = (bm, bv, br)" by simp
      note ih = Cons.IH [OF sc]
      from ih have r0: "rank mt \<le> rank bm" by blast
      from ih have all: "\<forall>x \<in> set rts. rank (fst (Match x meth path)) \<le> rank bm" by blast
      from ih have "(bm, bv, br) = (mt, vals, Some rt) \<or>
          (\<exists>i < length rts. br = Some (rts ! i) \<and> Match (rts ! i) meth path = (bm, bv)
              \<and> rank mt < rank bm
              \<and> (\<forall>j < i. rank (fst (Match (rts ! j) meth path)) < rank bm))" by blast
      then have "\<exists>k < length (rt # rts). br = Some ((rt # rts) ! k)
           \<and> Match ((rt # rts) ! k) meth path = (bm, bv) \<and> rank b0 < rank bm
           \<and> (\<forall>j < k. rank (fst (Match ((rt # rts) ! j) meth path)) < rank bm)"
      proof
        assume "(bm, bv, br) = (mt, vals, Some rt)"
        with m lt show ?thesis by (intro exI [of _ 0]) simp
      next
        assume "\<exists>i < length rts. br = Some (rts ! i) \<and> Match (rts ! i) meth path = (bm, bv)
              \<and> rank mt < rank bm
              \<and> (\<forall>j < i. rank (fst (Match (rts ! j) meth path)) < rank bm)"
        then obtain i where i: "i < length rts" "br = Some (rts ! i)"
          "Match (rts ! i) meth path = (bm, bv)" "rank mt < rank bm"
          "\<forall>j < i. rank (fst (Match (rts ! j) meth path)) < rank bm" by blast
        have "\<forall>j < Suc i. rank (fst (Match ((rt # rts) ! j) meth path)) < rank bm"
        proof (intro allI impI)
          fix j assume "j < Suc i"
          show "rank (fst (Match ((rt # rts) ! j) meth path)) < rank bm"
          proof (cases j)
            case 0
            with m i(4) show ?thesis by simp
          next
            case (Suc j')
            with \<open>j < Suc i\<close> i(5) show ?thesis by simp
          qed
        qed
        with i lt show ?thesis by (intro exI [of _ "Suc i"]) simp
      qed
      moreover have "\<forall>x \<in> set (rt # rts). rank (fst (Match x meth path)) \<le> rank bm"
        using all m r0 by auto
      moreover have "rank b0 \<le> rank bm" using lt r0 by simp
      ultimately show ?thesis by blast
    qed
  qed
qed




section \<open>Properties of the run loops\<close>

lemma quiet_mono: "quiet b tr \<Longrightarrow> (b' \<longrightarrow> b) \<Longrightarrow> quiet b' tr"
proof (induction b tr arbitrary: b' rule: quiet.induct)
  case (1 stopped)
  show ?case by simp
next
  case (2 stopped tr)
  then show ?case by simp
next
  case (3 stopped i tr)
  then show ?case by auto
next
  case (4 stopped i tr)
  then show ?case by simp
qed

lemma quiet_append:
  "quiet b (tr1 @ tr2) \<longleftrightarrow> quiet b tr1 \<and> quiet (b \<or> StopCall \<in> set tr1) tr2"
proof (induction b tr1 rule: quiet.induct)
  case (1 stopped)
  show ?case by simp
next
  case (2 stopped tr)
  then show ?case by simp
next
  case (3 stopped i tr)
  then show ?case by auto
next
  case (4 stopped i tr)
  then show ?case by simp
qed

lemma quiet_True_no_top: "quiet True tr \<Longrightarrow> TopInvoke i \<notin> set tr"
proof (induction tr)
  case Nil
  show ?case by simp
next
  case (Cons ev tr)
  then show ?case by (cases ev) auto
qed

lemma quiet_after_stop: "quiet b (t1 @ StopCall # t2) \<Longrightarrow> TopInvoke i \<notin> set t2"
  by (simp add: quiet_append quiet_True_no_top)

lemma follows_refl: "follows s s"
  by (simp add: follows_def)

lemma follows_trans:
  assumes "follows s1 s2" and "follows s2 s3"
  shows "follows s1 s3"
proof -
  from assms(1) obtain ta where a: "handlers (ctx s2) = handlers (ctx s1)"
    "trace s2 = trace s1 @ ta" "quiet (IsStopped (ctx s1)) ta"
    "IsStopped (ctx s1) \<or> StopCall \<in> set ta \<longrightarrow> IsStopped (ctx s2)"
    unfolding follows_def by blast
  from assms(2) obtain tb where b: "handlers (ctx s3) = handlers (ctx s2)"
    "trace s3 = trace s2 @ tb" "quiet (IsStopped (ctx s2)) tb"
    "IsStopped (ctx s2) \<or> StopCall \<in> set tb \<longrightarrow> IsStopped (ctx s3)"
    unfolding follows_def by blast
  have "quiet (IsStopped (ctx s1) \<or> StopCall \<in> set ta) tb"
    using b(3) a(4) by (rule quiet_mono)
  then have "quiet (IsStopped (ctx s1)) (ta @ tb)"
    using a(3) by (simp add: quiet_append)
  moreover have "trace s3 = trace s1 @ (ta @ tb)" using a(2) b(2) by simp
  moreover have "IsStopped (ctx s1) \<or> StopCall \<in> set (ta @ tb) \<longrightarrow> IsStopped (ctx s3)"
    using a(4) b(4) by auto
  ultimately show ?thesis unfolding follows_def using a(1) b(1) by metis
qed

lemma follows_bump: "follows s (bump s)"
  by (simp add: follows_def bump_def IsStopped_def)

lemma follows_rbump: "follows s (rbump s)"
  by (simp add: follows_def rbump_def)

lemma follows_res_Write: "follows s (res_Write b s)"
  by (simp add: follows_def res_Write_def IsStopped_def)

lemma follows_res_WriteHeader: "follows s (res_WriteHeader st s)"
  by (simp add: follows_def res_WriteHeader_def IsStopped_def)

lemma follows_ctx_Stop: "follows s (ctx_Stop s)"
  by (simp add: follows_def ctx_Stop_def IsStopped_def Stop_def)

lemma follows_RouteInvoke: "follows s (record_event (RouteInvoke i) s)"
  by (simp add: follows_def record_event_def)

lemma follows_TopInvoke: "\<not> IsStopped (ctx s) \<Longrightarrow> follows s (record_event (TopInvoke i) s)"
  by (simp add: follows_def record_event_def)

lemma follows_route_setup: "follows s (s\<lparr>params := v, rctx := r\<rparr>)"
  by (simp add: follows_def)

lemma follows_rctx_setup: "follows s (s\<lparr>rctx := r\<rparr>)"
  by (simp add: follows_def)

lemma follows_write_body: "follows s (snd (write_body e v s))"
  by (simp add: write_body_def follows_refl follows_res_Write split: option.splits)

lemma follows_status_and_body: "follows s (snd (status_and_body vals s))"
  by (simp add: status_and_body_def follows_refl follows_res_WriteHeader)

lemma follows_defaultRouterReturnHandler:
  "follows s (snd (defaultRouterReturnHandler e vals s))"
proof -
  have 1: "follows s (ctx_Stop (res_Write [] s))"
    using follows_trans [OF follows_res_Write follows_ctx_Stop] .
  have 2: "follows s (snd (write_body e (fst (status_and_body vals s)) (snd (status_and_body vals s))))"
    using follows_trans [OF follows_status_and_body follows_write_body] .
  show ?thesis
    using 1 2 by (auto simp: defaultRouterReturnHandler_def follows_refl split: prod.splits)
qed

lemma follows_defaultMiddlewareReturnHandler:
  "follows s (snd (defaultMiddlewareReturnHandler e vals s))"
proof -
  have 1: "follows s (ctx_Stop (res_Write [] s))"
    using follows_trans [OF follows_res_Write follows_ctx_Stop] .
  have 2: "follows s (snd (write_body e (fst (status_and_body vals s)) (ctx_Stop (snd (status_and_body vals s)))))"
    using follows_trans [OF follows_status_and_body follows_trans [OF follows_ctx_Stop follows_write_body]] .
  show ?thesis
    using 1 2 by (auto simp: defaultMiddlewareReturnHandler_def follows_refl split: prod.splits)
qed

lemma follows_all:
  "follows s (snd (run n e s))"
  "follows s (snd (rrun n e s))"
  "follows s (snd (Handle n e s))"
  "follows s (snd (Invoke n e h s))"
  "follows s (snd (exec n e rt p s))"
proof (induction n e s and n e s and n e s and n e h s and n e rt p s
       rule: run_rrun_Handle_Invoke_exec.induct)
  case (1 e s)
  show ?case by (simp add: follows_refl)
next
  case (2 n e s)
  show ?case
  proof (cases "IsStopped (ctx s)")
    case True
    then show ?thesis by (simp add: follows_refl)
  next
    case ns: False
    show ?thesis
    proof (cases "handler (ctx s)")
      case None
      with ns show ?thesis by (simp add: follows_refl)
    next
      case (Some h)
      define s0 where "s0 = record_event (TopInvoke (index (ctx s))) s"
      obtain r1 s1 where inv: "Invoke n e h s0 = (r1, s1)" by (cases "Invoke n e h s0")
      have f0: "follows s s0" unfolding s0_def using ns by (rule follows_TopInvoke)
      have "follows s0 s1" using "2.IH"(1) [OF ns Some] inv by (simp add: s0_def)
      with f0 have f1: "follows s s1" by (rule follows_trans)
      show ?thesis
      proof (cases r1)
        case (Ok vals)
        obtain r2 s2 where rh: "defaultMiddlewareReturnHandler e vals s1 = (r2, s2)"
          by (cases "defaultMiddlewareReturnHandler e vals s1")
        have "follows s1 s2" using follows_defaultMiddlewareReturnHandler [of s1 e vals] rh by simp
        with f1 have f2: "follows s s2" by (rule follows_trans)
        then have f3: "follows s (bump s2)" using follows_bump by (rule follows_trans)
        show ?thesis
        proof (cases r2)
          case (Ok u)
          show ?thesis
          proof (cases "Written (ctx (bump s2)) \<or> IsStopped (ctx (bump s2))")
            case True
            with ns Some inv \<open>r1 = Ok vals\<close> rh Ok f3 show ?thesis
              by (auto simp: s0_def Let_def)
          next
            case False
            have "follows (bump s2) (snd (run n e (bump s2)))"
              using "2.IH"(2) [OF ns Some inv [symmetric, unfolded s0_def] \<open>r1 = Ok vals\<close>
                     rh [symmetric] Ok refl] False by simp
            with f3 have "follows s (snd (run n e (bump s2)))" by (rule follows_trans)
            with ns Some inv \<open>r1 = Ok vals\<close> rh Ok False show ?thesis
              by (simp add: s0_def Let_def)
          qed
        next
          case Panic
          with ns Some inv \<open>r1 = Ok vals\<close> rh f2 show ?thesis by (simp add: s0_def)
        next
          case OutOfFuel
          with ns Some inv \<open>r1 = Ok vals\<close> rh f2 show ?thesis by (simp add: s0_def)
        qed
      next
        case Panic
        with ns Some inv f1 show ?thesis by (simp add: s0_def)
      next
        case OutOfFuel
        with ns Some inv f1 show ?thesis by (simp add: s0_def)
      qed
    qed
  qed
next
  case (3 e s)
  show ?case by (simp add: follows_refl)
next
  case (4 n e s)
  show ?case
  proof (cases "rctx s")
    case None
    then show ?thesis by (simp add: follows_refl)
  next
    case (Some r)
    show ?thesis
    proof (cases "rindex r < int (length (rchain r)) \<and> \<not> rindex r < 0")
      case False
      with Some show ?thesis by (auto simp: follows_refl)
    next
      case True
      then have lt: "rindex r < int (length (rchain r))" and ge: "\<not> rindex r < 0" by simp_all
      define s0 where "s0 = record_event (RouteInvoke (rindex r)) s"
      define h where "h = Plain (rchain r ! nat (rindex r))"
      obtain r1 s1 where inv: "Invoke n e h s0 = (r1, s1)" by (cases "Invoke n e h s0")
      have f0: "follows s s0" unfolding s0_def by (rule follows_RouteInvoke)
      have "follows s0 s1" using "4.IH"(1) [OF Some lt ge] inv by (simp add: s0_def h_def)
      with f0 have f1: "follows s s1" by (rule follows_trans)
      then have f2: "follows s (rbump s1)" using follows_rbump by (rule follows_trans)
      show ?thesis
      proof (cases r1)
        case (Ok vals)
        show ?thesis
        proof (cases "0 < length vals")
          case True
          have "follows s (snd (defaultRouterReturnHandler e vals (rbump s1)))"
            using f2 follows_defaultRouterReturnHandler by (rule follows_trans)
          with Some lt ge inv Ok True show ?thesis by (simp add: s0_def h_def Let_def)
        next
          case nv: False
          show ?thesis
          proof (cases "Written (ctx (rbump s1))")
            case True
            with Some lt ge inv Ok nv f2 show ?thesis by (simp add: s0_def h_def Let_def)
          next
            case False
            have "follows (rbump s1) (snd (rrun n e (rbump s1)))"
              using "4.IH"(2) [OF Some lt ge inv [symmetric, unfolded s0_def h_def] Ok refl nv False] .
            with f2 have "follows s (snd (rrun n e (rbump s1)))" by (rule follows_trans)
            with Some lt ge inv Ok nv False show ?thesis by (simp add: s0_def h_def Let_def)
          qed
        qed
      next
        case Panic
        with Some lt ge inv f1 show ?thesis by (simp add: s0_def h_def)
      next
        case OutOfFuel
        with Some lt ge inv f1 show ?thesis by (simp add: s0_def h_def)
      qed
    qed
  qed
next
  case (5 e s)
  show ?case by (simp add: follows_refl)
next
  case (6 n e s)
  obtain bm bv br where sc: "fst (scan (routes (the_router e)) (req_method e) (req_path e) (NoMatch, None, None) 0) = (bm, bv, br)"
    by (cases "fst (scan (routes (the_router e)) (req_method e) (req_path e) (NoMatch, None, None) 0)")
  show ?case
  proof (cases "bm \<noteq> NoMatch")
    case True
    show ?thesis
    proof (cases br)
      case None
      with sc True show ?thesis by (simp add: follows_refl)
    next
      case (Some rt)
      define s0 where "s0 = s\<lparr>params := bv, rctx := Some \<lparr>rindex = 0, rchain = rhandlers rt\<rparr>\<rparr>"
      have "follows s0 (snd (rrun n e s0))"
        using "6.IH"(1) [OF sc [symmetric] refl True Some] by (simp add: s0_def)
      moreover have "follows s s0" unfolding s0_def by (rule follows_route_setup)
      ultimately have "follows s (snd (rrun n e s0))" using follows_trans by blast
      with sc True Some show ?thesis by (simp add: s0_def)
    qed
  next
    case False
    define s0 where "s0 = s\<lparr>rctx := Some \<lparr>rindex = 0, rchain = notFounds (the_router e)\<rparr>\<rparr>"
    have "follows s0 (snd (rrun n e s0))"
      using "6.IH"(2) [OF sc [symmetric] refl False] by (simp add: s0_def)
    moreover have "follows s s0" unfolding s0_def by (rule follows_rctx_setup)
    ultimately have "follows s (snd (rrun n e s0))" using follows_trans by blast
    with sc False show ?thesis by (simp add: s0_def)
  qed
next
  case (7 n e s)
  then show ?case by (auto split: prod.splits result.splits)
next
  case (8 n e s)
  show ?case by (simp add: follows_refl)
next
  case (9 n e p s)
  then show ?case by simp
next
  case (10 n e rt vals s)
  show ?case by (simp add: follows_refl)
next
  case (11 n e rt k s)
  define s0 where "s0 = (if rt then rbump s else bump s)"
  have f0: "follows s s0" by (simp add: s0_def follows_bump follows_rbump)
  obtain r1 s1 where nx: "(if rt then rrun n e (rbump s) else run n e (bump s)) = (r1, s1)"
    by (cases "if rt then rrun n e (rbump s) else run n e (bump s)")
  have "follows s0 s1"
  proof (cases rt)
    case True
    with "11.IH"(1) nx show ?thesis by (simp add: s0_def)
  next
    case False
    with "11.IH"(2) nx show ?thesis by (simp add: s0_def)
  qed
  with f0 have f1: "follows s s1" by (rule follows_trans)
  show ?case
  proof (cases r1)
    case (Ok u)
    have "follows s1 (snd (exec n e rt k s1))"
      using "11.IH"(3) [OF nx [symmetric] Ok] .
    with f1 have "follows s (snd (exec n e rt k s1))" by (rule follows_trans)
    with nx Ok show ?thesis by simp
  next
    case Panic
    with nx f1 show ?thesis by simp
  next
    case OutOfFuel
    with nx f1 show ?thesis by simp
  qed
next
  case (12 n e rt k s)
  with follows_trans [OF follows_ctx_Stop] show ?case by simp
next
  case (13 n e rt b k s)
  with follows_trans [OF follows_res_Write] show ?case by simp
next
  case (14 n e rt st k s)
  with follows_trans [OF follows_res_WriteHeader] show ?case by simp
next
  case (15 n e rt a b s)
  then show ?case by simp
next
  case (16 n e rt a b s)
  then show ?case by simp
next
  case (17 n e rt s)
  show ?case by (simp add: follows_refl)
qed

subsection \<open>Every request returns\<close>

text \<open>
  The cursors only move forward, and each nested call of a run loop starts from a cursor
  that has moved; so the depth of the calls is bounded by what is left of the two chains,
  and a request given \<open>fuel_for\<close> nested calls never runs out of them.
\<close>

lemma fold_max_ge: "b \<le> fold max xs (b :: nat)"
proof (induction xs arbitrary: b)
  case Nil
  show ?case by simp
next
  case (Cons a xs)
  have "b \<le> max a b" by simp
  also have "max a b \<le> fold max xs (max a b)" by (rule Cons)
  finally show ?case by simp
qed

lemma fold_max_mem: "x \<in> set xs \<Longrightarrow> x \<le> fold max xs (b :: nat)"
proof (induction xs arbitrary: b)
  case Nil
  then show ?case by simp
next
  case (Cons y ys)
  show ?case
  proof (cases "x = y")
    case True
    have "max y b \<le> fold max ys (max y b)" by (rule fold_max_ge)
    with True show ?thesis by simp
  next
    case False
    with Cons show ?thesis by simp
  qed
qed

lemma chain_bound_notFounds: "length (notFounds (the_router e)) \<le> chain_bound e"
  unfolding chain_bound_def by (rule fold_max_ge)

lemma chain_bound_route:
  "rt \<in> set (routes (the_router e)) \<Longrightarrow> length (rhandlers rt) \<le> chain_bound e"
  unfolding chain_bound_def by (rule fold_max_mem) simp

lemma advances_refl: "advances e s s"
  by (simp add: advances_def)

lemma advances_trans: "advances e s1 s2 \<Longrightarrow> advances e s2 s3 \<Longrightarrow> advances e s1 s3"
  by (auto simp: advances_def)

lemma route_advances_refl: "route_advances s s"
  by (simp add: route_advances_def)

lemma route_advances_trans:
  "route_advances s1 s2 \<Longrightarrow> route_advances s2 s3 \<Longrightarrow> route_advances s1 s3"
  unfolding route_advances_def by fastforce

lemma advances_bump_le:
  assumes "advances e s s'"
  shows "top_left (bump s') \<le> top_left (bump s)"
  using assms by (auto simp: advances_def top_left_def bump_def)

lemma advances_bump: "advances e s (bump s)"
  by (simp add: advances_def bump_def top_left_def chains_ok_def)

lemma advances_rbump: "advances e s (rbump s)"
  by (auto simp: advances_def rbump_def top_left_def chains_ok_def split: option.splits)

lemma advances_res_Write: "advances e s (res_Write b s)"
  by (simp add: advances_def res_Write_def top_left_def chains_ok_def)

lemma advances_res_WriteHeader: "advances e s (res_WriteHeader st s)"
  by (simp add: advances_def res_WriteHeader_def top_left_def chains_ok_def)

lemma advances_ctx_Stop: "advances e s (ctx_Stop s)"
  by (simp add: advances_def ctx_Stop_def Stop_def top_left_def chains_ok_def)

lemma advances_record_event: "advances e s (record_event ev s)"
  by (simp add: advances_def record_event_def top_left_def chains_ok_def)

lemma advances_write_body: "advances e s (snd (write_body e v s))"
  by (simp add: write_body_def advances_refl advances_res_Write split: option.splits)

lemma advances_status_and_body: "advances e s (snd (status_and_body vals s))"
  by (simp add: status_and_body_def advances_refl advances_res_WriteHeader)

lemma advances_defaultRouterReturnHandler:
  "advances e s (snd (defaultRouterReturnHandler e vals s))"
proof -
  have 1: "advances e s (ctx_Stop (res_Write [] s))"
    using advances_trans [OF advances_res_Write advances_ctx_Stop] .
  have 2: "advances e s (snd (write_body e (fst (status_and_body vals s)) (snd (status_and_body vals s))))"
    using advances_trans [OF advances_status_and_body advances_write_body] .
  show ?thesis
    using 1 2 by (auto simp: defaultRouterReturnHandler_def advances_refl split: prod.splits)
qed

lemma advances_defaultMiddlewareReturnHandler:
  "advances e s (snd (defaultMiddlewareReturnHandler e vals s))"
proof -
  have 1: "advances e s (ctx_Stop (res_Write [] s))"
    using advances_trans [OF advances_res_Write advances_ctx_Stop] .
  have 2: "advances e s (snd (write_body e (fst (status_and_body vals s)) (ctx_Stop (snd (status_and_body vals s)))))"
    using advances_trans [OF advances_status_and_body advances_trans [OF advances_ctx_Stop advances_write_body]] .
  show ?thesis
    using 1 2 by (auto simp: defaultMiddlewareReturnHandler_def advances_refl split: prod.splits)
qed

lemma route_advances_rbump: "route_advances s (rbump s)"
  by (auto simp: route_advances_def rbump_def)

lemma route_advances_same: "rctx s' = rctx s \<Longrightarrow> route_advances s s'"
  by (simp add: route_advances_def)

lemma rctx_write_body: "rctx (snd (write_body e v s)) = rctx s"
  by (simp add: write_body_def res_Write_def split: option.splits)

lemma rctx_status_and_body: "rctx (snd (status_and_body vals s)) = rctx s"
  by (simp add: status_and_body_def res_WriteHeader_def)

lemma rctx_defaultRouterReturnHandler: "rctx (snd (defaultRouterReturnHandler e vals s)) = rctx s"
proof -
  obtain v s1 where sb: "status_and_body vals s = (v, s1)" by (cases "status_and_body vals s")
  then have "rctx s1 = rctx s" using rctx_status_and_body [of vals s] by simp
  with sb show ?thesis
    using rctx_write_body [of e v s1]
    by (simp add: defaultRouterReturnHandler_def ctx_Stop_def res_Write_def)
qed

lemma scan_route_mem:
  assumes "fst (scan rts meth path (b0, v0, r0) k0) = (bm, bv, Some rt)" and "r0 = None"
  shows "rt \<in> set rts"
  using scan_best [OF assms(1)] assms(2) by (auto simp: in_set_conv_nth)

lemma advances_route_setup:
  assumes "length (rhandlers rt) \<le> chain_bound e"
  shows "advances e s (s\<lparr>params := v, rctx := Some \<lparr>rindex = 0, rchain = rhandlers rt\<rparr>\<rparr>)"
  using assms by (simp add: advances_def top_left_def chains_ok_def)

lemma advances_notFound_setup:
  "advances e s (s\<lparr>rctx := Some \<lparr>rindex = 0, rchain = notFounds (the_router e)\<rparr>\<rparr>)"
  by (simp add: advances_def top_left_def chains_ok_def chain_bound_notFounds)


lemma rctx_record_event: "rctx (record_event ev s) = rctx s"
  by (simp add: record_event_def)

lemma rctx_ctx_Stop: "rctx (ctx_Stop s) = rctx s"
  by (simp add: ctx_Stop_def)

lemma rctx_res_Write: "rctx (res_Write b s) = rctx s"
  by (simp add: res_Write_def)

lemma rctx_res_WriteHeader: "rctx (res_WriteHeader st s) = rctx s"
  by (simp add: res_WriteHeader_def)

lemma both_step:
  assumes "advances e s s0" and "route_advances s s0"
    and "advances e s0 s' \<and> (rt \<longrightarrow> route_advances s0 s')"
  shows "advances e s s' \<and> (rt \<longrightarrow> route_advances s s')"
  using assms advances_trans route_advances_trans by blast

lemma mono_all:
  "advances e s (snd (run n e s))"
  "advances e s (snd (rrun n e s)) \<and> route_advances s (snd (rrun n e s))"
  "advances e s (snd (Handle n e s))"
  "advances e s (snd (Invoke n e h s))
     \<and> (h \<noteq> RouterHandle \<longrightarrow> rctx s \<noteq> None \<longrightarrow> route_advances s (snd (Invoke n e h s)))"
  "advances e s (snd (exec n e rt p s)) \<and> (rt \<longrightarrow> route_advances s (snd (exec n e rt p s)))"
proof (induction n e s and n e s and n e s and n e h s and n e rt p s
       rule: run_rrun_Handle_Invoke_exec.induct)
  case (1 e s)
  show ?case by (simp add: advances_refl)
next
  case (2 n e s)
  show ?case
  proof (cases "IsStopped (ctx s)")
    case True
    then show ?thesis by (simp add: advances_refl)
  next
    case ns: False
    show ?thesis
    proof (cases "handler (ctx s)")
      case None
      with ns show ?thesis by (simp add: advances_refl)
    next
      case (Some h)
      define s0 where "s0 = record_event (TopInvoke (index (ctx s))) s"
      obtain r1 s1 where inv: "Invoke n e h s0 = (r1, s1)" by (cases "Invoke n e h s0")
      have f0: "advances e s s0" unfolding s0_def by (rule advances_record_event)
      have "advances e s0 s1" using "2.IH"(1) [OF ns Some] inv by (simp add: s0_def)
      with f0 have f1: "advances e s s1" by (rule advances_trans)
      show ?thesis
      proof (cases r1)
        case (Ok vals)
        obtain r2 s2 where rh: "defaultMiddlewareReturnHandler e vals s1 = (r2, s2)"
          by (cases "defaultMiddlewareReturnHandler e vals s1")
        have "advances e s1 s2" using advances_defaultMiddlewareReturnHandler [of e s1 vals] rh by simp
        with f1 have f2: "advances e s s2" by (rule advances_trans)
        then have f3: "advances e s (bump s2)" using advances_bump by (rule advances_trans)
        show ?thesis
        proof (cases r2)
          case (Ok u)
          show ?thesis
          proof (cases "Written (ctx (bump s2)) \<or> IsStopped (ctx (bump s2))")
            case True
            with ns Some inv \<open>r1 = Ok vals\<close> rh Ok f3 show ?thesis
              by (auto simp: s0_def Let_def)
          next
            case False
            have "advances e (bump s2) (snd (run n e (bump s2)))"
              using "2.IH"(2) [OF ns Some inv [symmetric, unfolded s0_def] \<open>r1 = Ok vals\<close>
                     rh [symmetric] Ok refl] False by simp
            with f3 have "advances e s (snd (run n e (bump s2)))" by (rule advances_trans)
            with ns Some inv \<open>r1 = Ok vals\<close> rh Ok False show ?thesis
              by (simp add: s0_def Let_def)
          qed
        next
          case Panic
          with ns Some inv \<open>r1 = Ok vals\<close> rh f2 show ?thesis by (simp add: s0_def)
        next
          case OutOfFuel
          with ns Some inv \<open>r1 = Ok vals\<close> rh f2 show ?thesis by (simp add: s0_def)
        qed
      next
        case Panic
        with ns Some inv f1 show ?thesis by (simp add: s0_def)
      next
        case OutOfFuel
        with ns Some inv f1 show ?thesis by (simp add: s0_def)
      qed
    qed
  qed
next
  case (3 e s)
  show ?case by (simp add: advances_refl route_advances_refl)
next
  case (4 n e s)
  show ?case
  proof (cases "rctx s")
    case None
    then show ?thesis by (simp add: advances_refl route_advances_refl)
  next
    case (Some r)
    show ?thesis
    proof (cases "rindex r < int (length (rchain r)) \<and> \<not> rindex r < 0")
      case False
      with Some show ?thesis by (auto simp: advances_refl route_advances_refl)
    next
      case True
      then have lt: "rindex r < int (length (rchain r))" and ge: "\<not> rindex r < 0" by simp_all
      define s0 where "s0 = record_event (RouteInvoke (rindex r)) s"
      define h where "h = Plain (rchain r ! nat (rindex r))"
      obtain r1 s1 where inv: "Invoke n e h s0 = (r1, s1)" by (cases "Invoke n e h s0")
      have f0: "advances e s s0" unfolding s0_def by (rule advances_record_event)
      have g0: "route_advances s s0" unfolding s0_def
        by (rule route_advances_same) (rule rctx_record_event)
      have some0: "rctx s0 \<noteq> None" using Some by (simp add: s0_def rctx_record_event)
      have ih1: "advances e s0 s1 \<and> route_advances s0 s1"
        using "4.IH"(1) [OF Some lt ge] inv some0 by (simp add: s0_def h_def)
      have f1: "advances e s s1" using f0 ih1 advances_trans by blast
      have g1: "route_advances s s1" using g0 ih1 route_advances_trans by blast
      have f2: "advances e s (rbump s1)" using f1 advances_rbump by (rule advances_trans)
      have g2: "route_advances s (rbump s1)" using g1 route_advances_rbump by (rule route_advances_trans)
      show ?thesis
      proof (cases r1)
        case (Ok vals)
        show ?thesis
        proof (cases "0 < length vals")
          case True
          have "advances e s (snd (defaultRouterReturnHandler e vals (rbump s1)))"
            using f2 advances_defaultRouterReturnHandler by (rule advances_trans)
          moreover have "route_advances s (snd (defaultRouterReturnHandler e vals (rbump s1)))"
            using g2 route_advances_same [OF rctx_defaultRouterReturnHandler]
            by (rule route_advances_trans)
          ultimately show ?thesis
            using Some lt ge inv Ok True by (simp add: s0_def h_def Let_def)
        next
          case nv: False
          show ?thesis
          proof (cases "Written (ctx (rbump s1))")
            case True
            with Some lt ge inv Ok nv f2 g2 show ?thesis by (simp add: s0_def h_def Let_def)
          next
            case False
            have ih2: "advances e (rbump s1) (snd (rrun n e (rbump s1)))
                  \<and> route_advances (rbump s1) (snd (rrun n e (rbump s1)))"
              using "4.IH"(2) [OF Some lt ge inv [symmetric, unfolded s0_def h_def] Ok refl nv False] .
            have "advances e s (snd (rrun n e (rbump s1)))" using f2 ih2 advances_trans by blast
            moreover have "route_advances s (snd (rrun n e (rbump s1)))"
              using g2 ih2 route_advances_trans by blast
            ultimately show ?thesis
              using Some lt ge inv Ok nv False by (simp add: s0_def h_def Let_def)
          qed
        qed
      next
        case Panic
        with Some lt ge inv f1 g1 show ?thesis by (simp add: s0_def h_def)
      next
        case OutOfFuel
        with Some lt ge inv f1 g1 show ?thesis by (simp add: s0_def h_def)
      qed
    qed
  qed
next
  case (5 e s)
  show ?case by (simp add: advances_refl)
next
  case (6 n e s)
  obtain bm bv br where sc: "fst (scan (routes (the_router e)) (req_method e) (req_path e) (NoMatch, None, None) 0) = (bm, bv, br)"
    by (cases "fst (scan (routes (the_router e)) (req_method e) (req_path e) (NoMatch, None, None) 0)")
  show ?case
  proof (cases "bm \<noteq> NoMatch")
    case True
    show ?thesis
    proof (cases br)
      case None
      with sc True show ?thesis by (simp add: advances_refl)
    next
      case (Some rt)
      define s0 where "s0 = s\<lparr>params := bv, rctx := Some \<lparr>rindex = 0, rchain = rhandlers rt\<rparr>\<rparr>"
      have "rt \<in> set (routes (the_router e))"
        using scan_route_mem [OF sc [unfolded Some] refl] .
      then have "length (rhandlers rt) \<le> chain_bound e" by (rule chain_bound_route)
      then have "advances e s s0" unfolding s0_def by (rule advances_route_setup)
      moreover have "advances e s0 (snd (rrun n e s0))"
        using "6.IH"(1) [OF sc [symmetric] refl True Some] by (simp add: s0_def)
      ultimately have "advances e s (snd (rrun n e s0))" by (rule advances_trans)
      with sc True Some show ?thesis by (simp add: s0_def)
    qed
  next
    case False
    define s0 where "s0 = s\<lparr>rctx := Some \<lparr>rindex = 0, rchain = notFounds (the_router e)\<rparr>\<rparr>"
    have "advances e s s0" unfolding s0_def by (rule advances_notFound_setup)
    moreover have "advances e s0 (snd (rrun n e s0))"
      using "6.IH"(2) [OF sc [symmetric] refl False] by (simp add: s0_def)
    ultimately have "advances e s (snd (rrun n e s0))" by (rule advances_trans)
    with sc False show ?thesis by (simp add: s0_def)
  qed
next
  case (7 n e s)
  then show ?case by (auto split: prod.splits result.splits)
next
  case (8 n e s)
  show ?case by (simp add: advances_refl route_advances_refl)
next
  case (9 n e p s)
  then show ?case by simp
next
  case (10 n e rt vals s)
  show ?case by (simp add: advances_refl route_advances_refl)
next
  case (11 n e rt k s)
  define s0 where "s0 = (if rt then rbump s else bump s)"
  have f0: "advances e s s0" by (simp add: s0_def advances_bump advances_rbump)
  have g0: "rt \<longrightarrow> route_advances s s0" by (simp add: s0_def route_advances_rbump)
  obtain r1 s1 where nx: "(if rt then rrun n e (rbump s) else run n e (bump s)) = (r1, s1)"
    by (cases "if rt then rrun n e (rbump s) else run n e (bump s)")
  have ih1: "advances e s0 s1 \<and> (rt \<longrightarrow> route_advances s0 s1)"
  proof (cases rt)
    case True
    with "11.IH"(1) nx show ?thesis by (simp add: s0_def)
  next
    case False
    with "11.IH"(2) nx show ?thesis by (simp add: s0_def)
  qed
  have f1: "advances e s s1" using f0 ih1 advances_trans by blast
  have g1: "rt \<longrightarrow> route_advances s s1" using g0 ih1 route_advances_trans by blast
  show ?case
  proof (cases r1)
    case (Ok u)
    have ih3: "advances e s1 (snd (exec n e rt k s1))
            \<and> (rt \<longrightarrow> route_advances s1 (snd (exec n e rt k s1)))"
      using "11.IH"(3) [OF nx [symmetric] Ok] .
    have "advances e s (snd (exec n e rt k s1))" using f1 ih3 advances_trans by blast
    moreover have "rt \<longrightarrow> route_advances s (snd (exec n e rt k s1))"
      using g1 ih3 route_advances_trans by blast
    ultimately show ?thesis using nx Ok by (cases rt) simp_all
  next
    case Panic
    with nx f1 g1 show ?thesis by (cases rt) simp_all
  next
    case OutOfFuel
    with nx f1 g1 show ?thesis by (cases rt) simp_all
  qed
next
  case (12 n e rt k s)
  have "route_advances s (ctx_Stop s)" by (rule route_advances_same) (rule rctx_ctx_Stop)
  from both_step [OF advances_ctx_Stop this 12] show ?case by simp
next
  case (13 n e rt b k s)
  have "route_advances s (res_Write b s)" by (rule route_advances_same) (rule rctx_res_Write)
  from both_step [OF advances_res_Write this 13] show ?case by simp
next
  case (14 n e rt st k s)
  have "route_advances s (res_WriteHeader st s)" by (rule route_advances_same) (rule rctx_res_WriteHeader)
  from both_step [OF advances_res_WriteHeader this 14] show ?case by simp
next
  case (15 n e rt a b s)
  then show ?case by simp
next
  case (16 n e rt a b s)
  then show ?case by simp
next
  case (17 n e rt s)
  show ?case by (simp add: advances_refl route_advances_refl)
qed

lemma top_left_stopped: "IsStopped (ctx s) \<longleftrightarrow> top_left s = 0"
  by (auto simp: IsStopped_def top_left_def)

lemma top_left_bump: "top_left (bump s) = top_left s - 1"
  by (simp add: top_left_def bump_def)

lemma top_left_record_event: "top_left (record_event ev s) = top_left s"
  by (simp add: top_left_def record_event_def)

lemma chains_ok_record_event: "chains_ok e (record_event ev s) = chains_ok e s"
  by (simp add: chains_ok_def record_event_def)

lemma chains_ok_bump: "chains_ok e (bump s) = chains_ok e s"
  by (simp add: chains_ok_def bump_def)

lemma route_left_le_chain:
  "chains_ok e s \<Longrightarrow> route_left (rbump s) \<le> chain_bound e"
  by (auto simp: chains_ok_def route_left_def rbump_def split: option.splits)

lemma route_left_rbump_Some:
  "rctx s = Some r \<Longrightarrow> 0 \<le> rindex r \<Longrightarrow> rindex r < int (length (rchain r)) \<Longrightarrow>
     Suc (route_left (rbump s)) = route_left s"
  by (auto simp: route_left_def rbump_def nat_add_distrib)

lemma route_left_mono:
  assumes "route_advances s s'" and "rctx s \<noteq> None"
  shows "route_left (rbump s') \<le> route_left (rbump s)"
proof -
  from assms obtain r r' where r: "rctx s = Some r" "rctx s' = Some r'"
    "rchain r' = rchain r" "rindex r \<le> rindex r'"
    unfolding route_advances_def by auto
  then show ?thesis by (auto simp: route_left_def rbump_def)
qed

lemma route_left_rbump_le: "route_left (rbump (rbump s)) \<le> route_left (rbump s)"
  by (auto simp: route_left_def rbump_def split: option.splits)

lemma returns_defaultRouterReturnHandler: "fst (defaultRouterReturnHandler e vals s) \<noteq> OutOfFuel"
  by (auto simp: defaultRouterReturnHandler_def write_body_def split: prod.splits option.splits)

lemma returns_defaultMiddlewareReturnHandler: "fst (defaultMiddlewareReturnHandler e vals s) \<noteq> OutOfFuel"
  by (auto simp: defaultMiddlewareReturnHandler_def write_body_def split: prod.splits option.splits)

lemma rrun_no_route: "rctx s = None \<Longrightarrow> fst (rrun n e s) \<noteq> Ok u"
  by (cases n) simp_all

lemma rctx_rbump_None: "rctx (rbump s) = None \<longleftrightarrow> rctx s = None"
  by (simp add: rbump_def)

lemma progress_all:
  "chains_ok e s \<longrightarrow> top_left s + chain_bound e + 3 \<le> n \<longrightarrow> fst (run n e s) \<noteq> OutOfFuel"
  "route_left s + 1 \<le> n \<longrightarrow> fst (rrun n e s) \<noteq> OutOfFuel"
  "chain_bound e + 2 \<le> n \<longrightarrow> fst (Handle n e s) \<noteq> OutOfFuel"
  "(rctx s = None \<longrightarrow> top_left (bump s) + chain_bound e + 3 \<le> n) \<longrightarrow>
   (rctx s \<noteq> None \<longrightarrow> route_left (rbump s) + 1 \<le> n) \<longrightarrow>
   (h = RouterHandle \<longrightarrow> chain_bound e + 2 \<le> n) \<longrightarrow> fst (Invoke n e h s) \<noteq> OutOfFuel"
  "(rt \<longrightarrow> route_left (rbump s) + 1 \<le> n) \<longrightarrow>
   (\<not> rt \<longrightarrow> chains_ok e s \<and> top_left (bump s) + chain_bound e + 3 \<le> n) \<longrightarrow>
   fst (exec n e rt p s) \<noteq> OutOfFuel"
proof (induction n e s and n e s and n e s and n e h s and n e rt p s
       rule: run_rrun_Handle_Invoke_exec.induct)
  case (1 e s)
  show ?case by simp
next
  case (2 n e s)
  show ?case
  proof (intro impI)
    assume ok: "chains_ok e s" and fuel: "top_left s + chain_bound e + 3 \<le> Suc n"
    show "fst (run (Suc n) e s) \<noteq> OutOfFuel"
    proof (cases "IsStopped (ctx s)")
      case True
      then show ?thesis by simp
    next
      case ns: False
      then have pos: "0 < top_left s" by (simp add: top_left_stopped)
      show ?thesis
      proof (cases "handler (ctx s)")
        case None
        with ns show ?thesis by simp
      next
        case (Some h)
        define s0 where "s0 = record_event (TopInvoke (index (ctx s))) s"
        have ok0: "chains_ok e s0" using ok by (simp add: s0_def chains_ok_record_event)
        have tl0: "top_left (bump s0) + chain_bound e + 3 \<le> n"
          using fuel pos by (simp add: s0_def top_left_bump top_left_def bump_def record_event_def)
        have rl0: "route_left (rbump s0) + 1 \<le> n"
          using route_left_le_chain [OF ok0] tl0 by simp
        have rh0: "chain_bound e + 2 \<le> n" using tl0 by simp
        obtain r1 s1 where inv: "Invoke n e h s0 = (r1, s1)" by (cases "Invoke n e h s0")
        have r1: "r1 \<noteq> OutOfFuel"
          using "2.IH"(1) [OF ns Some] tl0 rl0 rh0 inv by (simp add: s0_def)
        have a1: "advances e s0 s1" using mono_all(4) [of e s0 n h] inv by simp
        show ?thesis
        proof (cases r1)
          case (Ok vals)
          obtain r2 s2 where rh: "defaultMiddlewareReturnHandler e vals s1 = (r2, s2)"
            by (cases "defaultMiddlewareReturnHandler e vals s1")
          have r2: "r2 \<noteq> OutOfFuel"
            using returns_defaultMiddlewareReturnHandler [of e vals s1] rh by simp
          have "advances e s1 s2" using advances_defaultMiddlewareReturnHandler [of e s1 vals] rh by simp
          with a1 have a2: "advances e s0 s2" by (rule advances_trans)
          have ok3: "chains_ok e (bump s2)" using a2 ok0 by (simp add: advances_def chains_ok_bump)
          have tl3: "top_left (bump s2) + chain_bound e + 3 \<le> n"
            using advances_bump_le [OF a2] tl0 by simp
          show ?thesis
          proof (cases r2)
            case (Ok u)
            show ?thesis
            proof (cases "Written (ctx (bump s2)) \<or> IsStopped (ctx (bump s2))")
              case True
              with ns Some inv \<open>r1 = Ok vals\<close> rh Ok show ?thesis
                by (auto simp: s0_def Let_def)
            next
              case False
              have "fst (run n e (bump s2)) \<noteq> OutOfFuel"
                using "2.IH"(2) [OF ns Some inv [symmetric, unfolded s0_def] \<open>r1 = Ok vals\<close>
                       rh [symmetric] Ok refl] False ok3 tl3 by simp
              with ns Some inv \<open>r1 = Ok vals\<close> rh Ok False show ?thesis
                by (simp add: s0_def Let_def)
            qed
          next
            case Panic
            with ns Some inv \<open>r1 = Ok vals\<close> rh show ?thesis by (simp add: s0_def)
          next
            case OutOfFuel
            with r2 show ?thesis by simp
          qed
        next
          case Panic
          with ns Some inv show ?thesis by (simp add: s0_def)
        next
          case OutOfFuel
          with r1 show ?thesis by simp
        qed
      qed
    qed
  qed
next
  case (3 e s)
  show ?case by simp
next
  case (4 n e s)
  show ?case
  proof (intro impI)
    assume fuel: "route_left s + 1 \<le> Suc n"
    show "fst (rrun (Suc n) e s) \<noteq> OutOfFuel"
    proof (cases "rctx s")
      case None
      then show ?thesis by simp
    next
      case (Some r)
      show ?thesis
      proof (cases "rindex r < int (length (rchain r)) \<and> \<not> rindex r < 0")
        case False
        with Some show ?thesis by auto
      next
        case True
        then have lt: "rindex r < int (length (rchain r))" and ge: "\<not> rindex r < 0" by simp_all
        define s0 where "s0 = record_event (RouteInvoke (rindex r)) s"
        define h where "h = Plain (rchain r ! nat (rindex r))"
        have rc0: "rctx s0 = Some r" using Some by (simp add: s0_def rctx_record_event)
        have "Suc (route_left (rbump s0)) = route_left s0"
          using route_left_rbump_Some [OF rc0] lt ge by simp
        moreover have "route_left s0 = route_left s"
          by (simp add: route_left_def s0_def rctx_record_event)
        ultimately have rl0: "route_left (rbump s0) + 1 \<le> n" using fuel by simp
        obtain r1 s1 where inv: "Invoke n e h s0 = (r1, s1)" by (cases "Invoke n e h s0")
        have r1: "r1 \<noteq> OutOfFuel"
          using "4.IH"(1) [OF Some lt ge] rl0 rc0 inv by (simp add: s0_def h_def)
        have ra: "route_advances s0 s1"
          using mono_all(4) [of e s0 n h] inv rc0 by (simp add: h_def)
        have rl1: "route_left (rbump s1) + 1 \<le> n"
          using route_left_mono [OF ra] rc0 rl0 by simp
        show ?thesis
        proof (cases r1)
          case (Ok vals)
          show ?thesis
          proof (cases "0 < length vals")
            case True
            with Some lt ge inv Ok returns_defaultRouterReturnHandler [of e vals "rbump s1"]
            show ?thesis by (simp add: s0_def h_def Let_def)
          next
            case nv: False
            show ?thesis
            proof (cases "Written (ctx (rbump s1))")
              case True
              with Some lt ge inv Ok nv show ?thesis by (simp add: s0_def h_def Let_def)
            next
              case False
              have "fst (rrun n e (rbump s1)) \<noteq> OutOfFuel"
                using "4.IH"(2) [OF Some lt ge inv [symmetric, unfolded s0_def h_def] Ok refl nv False]
                  rl1 by simp
              with Some lt ge inv Ok nv False show ?thesis by (simp add: s0_def h_def Let_def)
            qed
          qed
        next
          case Panic
          with Some lt ge inv show ?thesis by (simp add: s0_def h_def)
        next
          case OutOfFuel
          with r1 show ?thesis by simp
        qed
      qed
    qed
  qed
next
  case (5 e s)
  show ?case by simp
next
  case (6 n e s)
  show ?case
  proof (intro impI)
    assume fuel: "chain_bound e + 2 \<le> Suc n"
    obtain bm bv br where sc: "fst (scan (routes (the_router e)) (req_method e) (req_path e) (NoMatch, None, None) 0) = (bm, bv, br)"
      by (cases "fst (scan (routes (the_router e)) (req_method e) (req_path e) (NoMatch, None, None) 0)")
    show "fst (Handle (Suc n) e s) \<noteq> OutOfFuel"
    proof (cases "bm \<noteq> NoMatch")
      case True
      show ?thesis
      proof (cases br)
        case None
        with sc True show ?thesis by simp
      next
        case (Some rt)
        define s0 where "s0 = s\<lparr>params := bv, rctx := Some \<lparr>rindex = 0, rchain = rhandlers rt\<rparr>\<rparr>"
        have "rt \<in> set (routes (the_router e))"
          using scan_route_mem [OF sc [unfolded Some] refl] .
        then have "length (rhandlers rt) \<le> chain_bound e" by (rule chain_bound_route)
        then have "route_left s0 + 1 \<le> n" using fuel by (simp add: route_left_def s0_def)
        then have "fst (rrun n e s0) \<noteq> OutOfFuel"
          using "6.IH"(1) [OF sc [symmetric] refl True Some] by (simp add: s0_def)
        with sc True Some show ?thesis by (simp add: s0_def)
      qed
    next
      case False
      define s0 where "s0 = s\<lparr>rctx := Some \<lparr>rindex = 0, rchain = notFounds (the_router e)\<rparr>\<rparr>"
      have "route_left s0 + 1 \<le> n"
        using fuel chain_bound_notFounds [of e] by (simp add: route_left_def s0_def)
      then have "fst (rrun n e s0) \<noteq> OutOfFuel"
        using "6.IH"(2) [OF sc [symmetric] refl False] by (simp add: s0_def)
      with sc False show ?thesis by (simp add: s0_def)
    qed
  qed
next
  case (7 n e s)
  then show ?case by (auto split: prod.splits result.splits)
next
  case (8 n e s)
  show ?case by simp
next
  case (9 n e p s)
  then show ?case by (auto simp: chains_ok_def)
next
  case (10 n e rt vals s)
  show ?case by simp
next
  case (11 n e rt k s)
  show ?case
  proof (intro impI)
    assume p1: "rt \<longrightarrow> route_left (rbump s) + 1 \<le> n"
      and p2: "\<not> rt \<longrightarrow> chains_ok e s \<and> top_left (bump s) + chain_bound e + 3 \<le> n"
    obtain r1 s1 where nx: "(if rt then rrun n e (rbump s) else run n e (bump s)) = (r1, s1)"
      by (cases "if rt then rrun n e (rbump s) else run n e (bump s)")
    have r1: "r1 \<noteq> OutOfFuel"
    proof (cases rt)
      case True
      with "11.IH"(1) p1 nx show ?thesis by simp
    next
      case False
      with "11.IH"(2) p2 nx show ?thesis by (simp add: chains_ok_bump)
    qed
    show "fst (exec n e rt (CallNext k) s) \<noteq> OutOfFuel"
    proof (cases r1)
      case (Ok u)
      have q1: "rt \<longrightarrow> route_left (rbump s1) + 1 \<le> n"
      proof
        assume rt: rt
        with nx Ok have "fst (rrun n e (rbump s)) = Ok u" by simp
        then have some: "rctx (rbump s) \<noteq> None" using rrun_no_route by blast
        have "route_advances (rbump s) s1" using mono_all(2) [of e "rbump s" n] nx rt by simp
        from route_left_mono [OF this some]
        have "route_left (rbump s1) \<le> route_left (rbump (rbump s))" .
        also have "\<dots> \<le> route_left (rbump s)" by (rule route_left_rbump_le)
        finally show "route_left (rbump s1) + 1 \<le> n" using p1 rt by simp
      qed
      have q2: "\<not> rt \<longrightarrow> chains_ok e s1 \<and> top_left (bump s1) + chain_bound e + 3 \<le> n"
      proof
        assume nrt: "\<not> rt"
        have a: "advances e (bump s) s1" using mono_all(1) [of e "bump s" n] nx nrt by simp
        have "chains_ok e s1" using a p2 nrt by (simp add: advances_def chains_ok_bump)
        moreover have "top_left (bump s1) \<le> top_left (bump s)"
          using advances_bump_le [OF a] by (simp add: top_left_bump)
        ultimately show "chains_ok e s1 \<and> top_left (bump s1) + chain_bound e + 3 \<le> n"
          using p2 nrt by simp
      qed
      have "fst (exec n e rt k s1) \<noteq> OutOfFuel"
        using "11.IH"(3) [OF nx [symmetric] Ok] q1 q2 by blast
      with nx Ok show ?thesis by (cases rt) simp_all
    next
      case Panic
      with nx show ?thesis by (cases rt) simp_all
    next
      case OutOfFuel
      with r1 show ?thesis by simp
    qed
  qed
next
  case (12 n e rt k s)
  have "route_left (rbump (ctx_Stop s)) = route_left (rbump s)"
    by (simp add: route_left_def rbump_def ctx_Stop_def)
  moreover have "chains_ok e (ctx_Stop s) = chains_ok e s"
    by (simp add: chains_ok_def ctx_Stop_def)
  moreover have "top_left (bump (ctx_Stop s)) = 0"
    by (simp add: top_left_def bump_def ctx_Stop_def Stop_def)
  ultimately show ?case using 12 by (cases rt) auto
next
  case (13 n e rt b k s)
  have "route_left (rbump (res_Write b s)) = route_left (rbump s)"
    by (simp add: route_left_def rbump_def res_Write_def)
  moreover have "chains_ok e (res_Write b s) = chains_ok e s"
    by (simp add: chains_ok_def res_Write_def)
  moreover have "top_left (bump (res_Write b s)) = top_left (bump s)"
    by (simp add: top_left_def bump_def res_Write_def)
  ultimately show ?case using 13 by (cases rt) auto
next
  case (14 n e rt st k s)
  have "route_left (rbump (res_WriteHeader st s)) = route_left (rbump s)"
    by (simp add: route_left_def rbump_def res_WriteHeader_def)
  moreover have "chains_ok e (res_WriteHeader st s) = chains_ok e s"
    by (simp add: chains_ok_def res_WriteHeader_def)
  moreover have "top_left (bump (res_WriteHeader st s)) = top_left (bump s)"
    by (simp add: top_left_def bump_def res_WriteHeader_def)
  ultimately show ?case using 14 by (cases rt) auto
next
  case (15 n e rt a b s)
  then show ?case by simp
next
  case (16 n e rt a b s)
  then show ?case by simp
next
  case (17 n e rt s)
  show ?case by simp
qed

lemma request_returns:
  assumes "fuel_for e srv \<le> n"
  shows "fst (Next n e (CreateContext srv)) \<noteq> OutOfFuel"
proof -
  have "chains_ok e (bump (CreateContext srv))"
    by (simp add: chains_ok_def bump_def CreateContext_def)
  moreover have "top_left (bump (CreateContext srv)) = length (s_handlers srv) + 1"
    by (simp add: top_left_def bump_def CreateContext_def NewContext_def)
  ultimately show ?thesis
    using progress_all(1) [of e "bump (CreateContext srv)" n] assms
    by (simp add: Next_def fuel_for_def)
qed

subsection \<open>What running a route-scoped chain does\<close>






section \<open>The cursor and IsStopped\<close>

text \<open>
  C6, as the spec states it: \<^verbatim>\<open>IsStopped()\<close> is true exactly when the cursor is at or
  past the length of the handler chain. It is false at the cursor \<open>n\<close> itself, where
  \<^verbatim>\<open>handler()\<close> gives the action: a context with no handlers and the cursor at 0.
\<close>

theorem C6_IsStopped_at_length_counterexample:
  "\<not> (IsStopped \<lparr>handlers = [], action = Plain (Func (Return [])), rw = NewResponseWriter, index = 0\<rparr>
      \<longleftrightarrow> int (length ([] :: handler list)) \<le> 0)"
  by (simp add: IsStopped_def)

text \<open>
  C6, amended: for every chain of length \<open>n\<close> and every cursor, \<^verbatim>\<open>IsStopped()\<close> is true
  exactly when the cursor is past \<open>n\<close>, that is at or past \<open>n + 1\<close>, the value \<^verbatim>\<open>Stop\<close>
  sets; at the cursor \<open>n\<close> the context is not stopped and \<^verbatim>\<open>handler()\<close> is the action.
\<close>

theorem C6_IsStopped_past_length:
  "(IsStopped c \<longleftrightarrow> int (length (handlers c)) + 1 \<le> index c)
   \<and> IsStopped (Stop c)
   \<and> \<not> IsStopped (c\<lparr>index := int (length (handlers c))\<rparr>)
   \<and> handler (c\<lparr>index := int (length (handlers c))\<rparr>) = Some (action c)"
  by (auto simp: IsStopped_def Stop_def handler_def)

section \<open>Stop and the handlers after it\<close>

lemma slash_route_newRoute: "newRoute ''GET'' ''/'' hs = Some (slash_route hs)"
  unfolding slash_route_def by code_simp

lemma slash_route_registered:
  "Get ''/'' hs NewRouter = Some (0, the_router (get_slash hs))"
  unfolding slash_route_def get_slash_def by code_simp

lemma x_route_newRoute: "newRoute meth ''/x'' hs = Some (x_route meth hs)"
  unfolding x_route_def newRoute_def by code_simp

lemma stopped_run_quiet:
  assumes "IsStopped (ctx s)" and "follows s s'"
  shows "TopInvoke i \<notin> set (drop (length (trace s)) (trace s'))"
proof -
  from assms(2) obtain tr where "trace s' = trace s @ tr" "quiet (IsStopped (ctx s)) tr"
    unfolding follows_def by blast
  with assms(1) show ?thesis by (simp add: quiet_True_no_top)
qed

lemma status_and_body_keeps:
  "trace (snd (status_and_body vals s)) = trace s
   \<and> index (ctx (snd (status_and_body vals s))) = index (ctx s)
   \<and> handlers (ctx (snd (status_and_body vals s))) = handlers (ctx s)
   \<and> rctx (snd (status_and_body vals s)) = rctx s"
  by (simp add: status_and_body_def res_WriteHeader_def)

lemma write_body_keeps:
  "trace (snd (write_body e v s)) = trace s
   \<and> index (ctx (snd (write_body e v s))) = index (ctx s)
   \<and> handlers (ctx (snd (write_body e v s))) = handlers (ctx s)
   \<and> rctx (snd (write_body e v s)) = rctx s"
  by (simp add: write_body_def res_Write_def split: option.splits)

lemma middleware_write_stops:
  assumes "\<not> no_write vals"
  shows "IsStopped (ctx (snd (defaultMiddlewareReturnHandler e vals s)))
         \<and> trace (snd (defaultMiddlewareReturnHandler e vals s)) = trace s @ [StopCall]"
proof (cases "single_false vals")
  case True
  with assms show ?thesis
    by (simp add: defaultMiddlewareReturnHandler_def ctx_Stop_def res_Write_def IsStopped_def Stop_def)
next
  case False
  obtain v s1 where sb: "status_and_body vals s = (v, s1)" by (cases "status_and_body vals s")
  have k1: "trace s1 = trace s" using status_and_body_keeps [of vals s] sb by simp
  have "IsStopped (ctx (ctx_Stop s1))" by (simp add: ctx_Stop_def IsStopped_def Stop_def)
  then have "IsStopped (ctx (snd (write_body e v (ctx_Stop s1))))"
    using write_body_keeps [of e v "ctx_Stop s1"] by (simp add: IsStopped_def)
  moreover have "trace (snd (write_body e v (ctx_Stop s1))) = trace s @ [StopCall]"
    using write_body_keeps [of e v "ctx_Stop s1"] k1 by (simp add: ctx_Stop_def)
  ultimately show ?thesis using assms False sb
    by (simp add: defaultMiddlewareReturnHandler_def)
qed

lemma router_write_does_not_stop:
  assumes "\<not> no_write vals" and "\<not> single_false vals"
  shows "trace (snd (defaultRouterReturnHandler e vals s)) = trace s
         \<and> index (ctx (snd (defaultRouterReturnHandler e vals s))) = index (ctx s)
         \<and> rctx (snd (defaultRouterReturnHandler e vals s)) = rctx s"
proof -
  obtain v s1 where sb: "status_and_body vals s = (v, s1)" by (cases "status_and_body vals s")
  show ?thesis
    using assms sb status_and_body_keeps [of vals s] write_body_keeps [of e v s1]
    by (simp add: defaultRouterReturnHandler_def)
qed

lemma single_false_not_no_write: "single_false vals \<Longrightarrow> \<not> no_write vals"
  by (auto simp: single_false_def no_write_def)

text \<open>
  For the top-level context \<^verbatim>\<open>Stop()\<close> does what its name says: once it has been called,
  by a handler of either chain or by a return protocol, no handler of the top-level chain
  and not its action is invoked for the rest of the request, whatever the chains, the
  router, the request and the outcome. Called through a \<^verbatim>\<open>routeContext\<close> it is the same
  \<^verbatim>\<open>Stop\<close>, of the embedded top-level context; the route cursor stays where it is.
\<close>

theorem top_level_quiet_after_Stop:
  assumes "Next n e (CreateContext srv) = (res, s')"
    and "trace s' = t1 @ StopCall # t2"
  shows "TopInvoke i \<notin> set t2 \<and> rctx (ctx_Stop s) = rctx s \<and> IsStopped (ctx (ctx_Stop s))"
proof -
  have "follows (CreateContext srv) (bump (CreateContext srv))" by (rule follows_bump)
  moreover have "follows (bump (CreateContext srv)) s'"
    using follows_all(1) [of "bump (CreateContext srv)" n e] assms(1) by (simp add: Next_def)
  ultimately have "follows (CreateContext srv) s'" by (rule follows_trans)
  then obtain tr where "trace s' = trace (CreateContext srv) @ tr"
    and "quiet (IsStopped (ctx (CreateContext srv))) tr"
    unfolding follows_def by blast
  then have "quiet (IsStopped (ctx (CreateContext srv))) (trace s')"
    by (simp add: CreateContext_def)
  with assms(2) have "TopInvoke i \<notin> set t2" using quiet_after_stop by metis
  then show ?thesis by (simp add: ctx_Stop_def IsStopped_def Stop_def)
qed

text \<open>
  At a request where the first route handler calls \<^verbatim>\<open>Stop()\<close>: what follows in the trace
  is the second route handler only.
\<close>

theorem top_level_quiet_after_Stop_example:
  "Next 8 (get_slash [Func (CallStop (Return [])), Func (Return [])]) (CreateContext (classic []))
     = (Ok (),
        \<lparr>ctx = \<lparr>handlers = [], action = RouterHandle, rw = NewResponseWriter, index = 2\<rparr>,
           rctx = Some \<lparr>rindex = 2, rchain = [Func (CallStop (Return [])), Func (Return [])]\<rparr>,
           params = Some [],
           trace = [TopInvoke 0, RouteInvoke 0] @ StopCall # [RouteInvoke 1]\<rparr>)
   \<and> TopInvoke 0 \<notin> set [RouteInvoke 1]"
proof -
  have h: "Next 8 (get_slash [Func (CallStop (Return [])), Func (Return [])]) (CreateContext (classic []))
     = (Ok (),
        \<lparr>ctx = \<lparr>handlers = [], action = RouterHandle, rw = NewResponseWriter, index = 2\<rparr>,
           rctx = Some \<lparr>rindex = 2, rchain = [Func (CallStop (Return [])), Func (Return [])]\<rparr>,
           params = Some [],
           trace = [TopInvoke 0, RouteInvoke 0] @ StopCall # [RouteInvoke 1]\<rparr>)"
    by code_simp
  from top_level_quiet_after_Stop [OF h, of "[TopInvoke 0, RouteInvoke 0]" "[RouteInvoke 1]" 0]
  have "TopInvoke 0 \<notin> set [RouteInvoke 1]" by simp
  with h show ?thesis by blast
qed

text \<open>
  C1 at the request \<^verbatim>\<open>GET /\<close> on a route \<^verbatim>\<open>/\<close> with two handlers, the first of which
  calls \<^verbatim>\<open>Stop()\<close> and returns nothing: \<^verbatim>\<open>routeContext.run\<close> tests its own cursor and
  \<^verbatim>\<open>Written()\<close> only, not \<^verbatim>\<open>IsStopped()\<close> as \<^verbatim>\<open>context.run\<close> does, and the handler at
  route index 1 is invoked after the \<^verbatim>\<open>Stop()\<close> of the handler at route index 0.
\<close>

theorem C1_route_chain_goes_on_after_Stop:
  "Next 8 (get_slash [Func (CallStop (Return [])), Func (Return [])]) (CreateContext (classic []))
   = (Ok (),
      \<lparr>ctx = \<lparr>handlers = [], action = RouterHandle, rw = NewResponseWriter, index = 2\<rparr>,
         rctx = Some \<lparr>rindex = 2, rchain = [Func (CallStop (Return [])), Func (Return [])]\<rparr>,
         params = Some [],
         trace = [TopInvoke 0, RouteInvoke 0, StopCall, RouteInvoke 1]\<rparr>)"
  by code_simp

section \<open>Return values that continue the chain\<close>

text \<open>
  C2 at a route whose first handler returns the single value \<open>true\<close>: the route protocol
  writes nothing, and \<^verbatim>\<open>routeContext.run\<close> returns right after it, with the cursor at 1
  of 2, nothing written and the top-level context not stopped; the second handler is never
  invoked. First the whole request \<^verbatim>\<open>GET /\<close>, then the route loop alone, then the same two
  handlers as global middleware, where \<^verbatim>\<open>context.run\<close> does go on to the second handler
  and to the action.
\<close>

theorem C2_route_chain_ends_after_true:
  "Next 8 (get_slash [Func (Return [VBool True]), Func (Return [])]) (CreateContext (classic []))
     = (Ok (),
        \<lparr>ctx = \<lparr>handlers = [], action = RouterHandle, rw = NewResponseWriter, index = 1\<rparr>,
           rctx = Some \<lparr>rindex = 1, rchain = [Func (Return [VBool True]), Func (Return [])]\<rparr>,
           params = Some [],
           trace = [TopInvoke 0, RouteInvoke 0]\<rparr>)
   \<and> rrun 8 (get_slash [])
        \<lparr>ctx = \<lparr>handlers = [], action = RouterHandle, rw = NewResponseWriter, index = 0\<rparr>,
           rctx = Some \<lparr>rindex = 0, rchain = [Func (Return [VBool True]), Func (Return [])]\<rparr>,
           params = None, trace = []\<rparr>
     = (Ok (),
        \<lparr>ctx = \<lparr>handlers = [], action = RouterHandle, rw = NewResponseWriter, index = 0\<rparr>,
           rctx = Some \<lparr>rindex = 1, rchain = [Func (Return [VBool True]), Func (Return [])]\<rparr>,
           params = None, trace = [RouteInvoke 0]\<rparr>)
   \<and> trace (snd (Next 8 (get_slash [])
          (CreateContext \<lparr>s_handlers = [Func (Return [VBool True]), Func (Return [])],
             s_action = Plain (Func (Return [])), activeCount = 0, isStopping = False,
             gracefulDelay = 0, signals = []\<rparr>)))
     = [TopInvoke 0, TopInvoke 1, TopInvoke 2]"
  by code_simp

section \<open>Return values that write\<close>

text \<open>
  C3, as the spec states it: a global middleware handler that returns \<open>(true, "x")\<close>
  returns something other than zero values or a single boolean \<open>true\<close>, and the
  middleware protocol neither writes nor stops: its test is on the first value alone. The
  second middleware handler and the action run.
\<close>

theorem C3_true_with_more_values_counterexample:
  "Next 8 (get_slash [])
     (CreateContext \<lparr>s_handlers = [Func (Return [VBool True, VString ''x'']), Func (Return [])],
        s_action = Plain (Func (Return [])), activeCount = 0, isStopping = False,
        gracefulDelay = 0, signals = []\<rparr>)
   = (Ok (),
      \<lparr>ctx = \<lparr>handlers = [Func (Return [VBool True, VString ''x'']), Func (Return [])],
               action = Plain (Func (Return [])), rw = NewResponseWriter, index = 3\<rparr>,
         rctx = None, params = None,
         trace = [TopInvoke 0, TopInvoke 1, TopInvoke 2]\<rparr>)"
  by code_simp

text \<open>
  C3, amended: for values outside the no-write case of the code (no values, or a first
  value that is the boolean \<open>true\<close>, whatever follows it), the middleware protocol calls
  \<^verbatim>\<open>Stop\<close> on the top-level context, also when the write then panics, and from there on
  neither the loop that called it nor the code of any handler still running invokes a
  handler of the top-level chain or the action. For such values other than a single boolean
  \<open>false\<close>, the route protocol calls \<^verbatim>\<open>Stop\<close> on no context: the top-level cursor and the
  route cursor are as before.
\<close>

theorem C3_middleware_write_stops_route_write_does_not:
  assumes "\<not> no_write vals"
  shows "IsStopped (ctx (snd (defaultMiddlewareReturnHandler e vals s)))
    \<and> StopCall \<in> set (drop (length (trace s)) (trace (snd (defaultMiddlewareReturnHandler e vals s))))
    \<and> TopInvoke i \<notin> set (drop (length (trace (snd (defaultMiddlewareReturnHandler e vals s))))
                            (trace (snd (run n e (bump (snd (defaultMiddlewareReturnHandler e vals s)))))))
    \<and> TopInvoke i \<notin> set (drop (length (trace (snd (defaultMiddlewareReturnHandler e vals s))))
                            (trace (snd (exec n e rt p (snd (defaultMiddlewareReturnHandler e vals s))))))
    \<and> (\<not> single_false vals \<longrightarrow>
         StopCall \<notin> set (drop (length (trace s)) (trace (snd (defaultRouterReturnHandler e vals s))))
         \<and> index (ctx (snd (defaultRouterReturnHandler e vals s))) = index (ctx s)
         \<and> rctx (snd (defaultRouterReturnHandler e vals s)) = rctx s)"
proof -
  define s2 where "s2 = snd (defaultMiddlewareReturnHandler e vals s)"
  have st: "IsStopped (ctx s2)" and tr: "trace s2 = trace s @ [StopCall]"
    using middleware_write_stops [OF assms, of e s] by (simp_all add: s2_def)
  have "follows s2 (snd (run n e (bump s2)))"
    using follows_trans [OF follows_bump follows_all(1)] .
  then have a: "TopInvoke i \<notin> set (drop (length (trace s2)) (trace (snd (run n e (bump s2)))))"
    using st by (rule stopped_run_quiet [rotated])
  have "follows s2 (snd (exec n e rt p s2))" by (rule follows_all(5))
  then have b: "TopInvoke i \<notin> set (drop (length (trace s2)) (trace (snd (exec n e rt p s2))))"
    using st by (rule stopped_run_quiet [rotated])
  have c: "\<not> single_false vals \<longrightarrow>
         StopCall \<notin> set (drop (length (trace s)) (trace (snd (defaultRouterReturnHandler e vals s))))
         \<and> index (ctx (snd (defaultRouterReturnHandler e vals s))) = index (ctx s)
         \<and> rctx (snd (defaultRouterReturnHandler e vals s)) = rctx s"
    using router_write_does_not_stop [OF assms, of e s] by simp
  show ?thesis using st tr a b c unfolding s2_def by simp
qed

text \<open>
  The theorem at the values \<open>(403, "denied")\<close>.
\<close>

theorem C3_middleware_write_stops_route_write_does_not_witness:
  "\<not> no_write [VInt 403, VString ''denied'']
   \<and> IsStopped (ctx (snd (defaultMiddlewareReturnHandler (get_slash []) [VInt 403, VString ''denied'']
                              (bump (CreateContext (classic [Func (Return [])]))))))
   \<and> \<not> single_false [VInt 403, VString ''denied'']
   \<and> index (ctx (snd (defaultRouterReturnHandler (get_slash []) [VInt 403, VString ''denied'']
                              (bump (CreateContext (classic [Func (Return [])]))))))
       = index (ctx (bump (CreateContext (classic [Func (Return [])]))))"
proof -
  have h1: "\<not> no_write [VInt 403, VString ''denied'']" by (simp add: no_write_def)
  have h2: "\<not> single_false [VInt 403, VString ''denied'']" by (simp add: single_false_def)
  from C3_middleware_write_stops_route_write_does_not
         [OF h1, of "get_slash []" "bump (CreateContext (classic [Func (Return [])]))"]
       h1 h2
  show ?thesis by blast
qed


section \<open>The active-request counter\<close>

text \<open>
  C5 at a stopping server whose counter is 0 and one request: \<^verbatim>\<open>ServeHTTP\<close> runs the
  chain and then adds -1 to the counter; nothing has added 1 before. The counter ends at
  -1, not at 0, and the server neither sleeps nor sends on \<^verbatim>\<open>cClose\<close>.
\<close>

theorem C5_ServeHTTP_only_decrements:
  "ServeHTTP 8 (get_slash [])
     \<lparr>s_handlers = [], s_action = Plain (Func (Return [])), activeCount = 0,
        isStopping = True, gracefulDelay = 3000000000, signals = []\<rparr>
   = ((Ok (),
       \<lparr>ctx = \<lparr>handlers = [], action = Plain (Func (Return [])), rw = NewResponseWriter, index = 1\<rparr>,
          rctx = None, params = None, trace = [TopInvoke 0]\<rparr>),
      \<lparr>s_handlers = [], s_action = Plain (Func (Return [])), activeCount = - 1,
        isStopping = True, gracefulDelay = 3000000000, signals = []\<rparr>)"
  by code_simp

section \<open>Dispatch\<close>



section \<open>Matching a path\<close>










lemma literal_regex_Nil: "literal_regex [] = Quest (Lit CHR ''/'')"
  by (simp add: literal_regex_def)

lemma literal_regex_Cons: "literal_regex (c # p) = Concat (Lit c) (literal_regex p)"
  by (cases p) (simp_all add: literal_regex_def)



lemma cap_names_literal_regex: "cap_names (literal_regex p) = []"
  by (induction p) (simp_all add: literal_regex_Nil literal_regex_Cons)










section \<open>Reverse URLs\<close>



















end
